theory Spec2Isabelle
  imports Main "HOL-Library.Word" "HOL-Library.Multiset"
begin

section \<open>Strings\<close>

text \<open>
  A JavaScript string is a sequence of UTF-16 code units. Names, paths and rendered lines
  are therefore lists of 16-bit words; \<open>ascii\<close> embeds an ASCII literal.
\<close>

type_synonym jsstring = "16 word list"

definition ascii :: "string \<Rightarrow> jsstring" where
  "ascii s = map of_char s"

definition slash :: jsstring where
  "slash = [0x2F]"

text \<open>The four fixed-width units of the tree drawing, as they stand in \<open>renderStructure\<close>.\<close>

definition connector_last :: jsstring where
  "connector_last = [0x2514, 0x2500, 0x2500, 0x20]"

definition connector_mid :: jsstring where
  "connector_mid = [0x251C, 0x2500, 0x2500, 0x20]"

definition indent_blank :: jsstring where
  "indent_blank = [0x20, 0x20, 0x20, 0x20]"

definition indent_bar :: jsstring where
  "indent_bar = [0x2502, 0x20, 0x20, 0x20]"

text \<open>\<open>String.prototype.split\<close> with a one-unit separator: the empty string gives one empty piece.\<close>

fun split :: "16 word \<Rightarrow> jsstring \<Rightarrow> jsstring list" where
  "split sep [] = [[]]"
| "split sep (c # cs) =
     (if c = sep then [] # split sep cs
      else (case split sep cs of
              [] \<Rightarrow> [[c]]
            | w # ws \<Rightarrow> (c # w) # ws))"

section \<open>Data model\<close>

text \<open>An entry of \<open>content.files\<close>: its key and JSZip's \<open>dir\<close> flag.\<close>

record zip_entry =
  relativePath :: jsstring
  dir :: bool

text \<open>
  A \<open>FileSystemEntry\<close>. A directory entry carries the successive outcomes of
  \<open>readEntries\<close> on a fresh reader: \<open>None\<close> is a call of the error callback,
  \<open>Some batch\<close> a call of the success callback; once the list is used up the reader
  answers with the empty batch.
\<close>

datatype fs_entry =
    FileEntry (entry_name: jsstring)
  | DirectoryEntry (entry_name: jsstring) (read_results: "fs_entry list option list")

text \<open>The opaque handle a file node keeps (\<open>zipEntry\<close> or \<open>fileEntry\<close>).\<close>

datatype handle = ZipEntryHandle zip_entry | FileEntryHandle fs_entry

datatype kind = Directory | File

text \<open>
  A node object. Both builders give a directory node a \<open>children\<close> array and a file node
  none, so the \<open>type\<close> field and the presence of \<open>children\<close> go together.
\<close>

datatype node =
    DirNode (name: jsstring) (path: jsstring) (children: "node list")
  | FileNode (name: jsstring) (path: jsstring) (handle: handle)

fun node_type :: "node \<Rightarrow> kind" where
  "node_type (DirNode n p cs) = Directory"
| "node_type (FileNode n p h) = File"

text \<open>
  The exceptions: the size check's own error, a rejection of \<open>loadAsync\<close> with its
  message, a \<open>TypeError\<close> of the engine, and the error the \<open>catch\<close> of
  \<open>extractZipStructure\<close> throws in place of any of them.
\<close>

datatype error =
    FileExceedsLimit nat
  | LoadFailed jsstring
  | TypeError
  | FailedToProcessZIP error

section \<open>Sorting\<close>

text \<open>
  \<open>Array.prototype.sort\<close> is stable (ECMAScript 2019); for a consistent comparison function
  every stable sort returns the same array, here computed by insertion from the right.
\<close>

fun insert_sorted :: "('a \<Rightarrow> 'a \<Rightarrow> int) \<Rightarrow> 'a \<Rightarrow> 'a list \<Rightarrow> 'a list" where
  "insert_sorted cmp x [] = [x]"
| "insert_sorted cmp x (y # ys) =
     (if cmp x y \<le> 0 then x # y # ys else y # insert_sorted cmp x ys)"

fun array_sort :: "('a \<Rightarrow> 'a \<Rightarrow> int) \<Rightarrow> 'a list \<Rightarrow> 'a list" where
  "array_sort cmp [] = []"
| "array_sort cmp (x # xs) = insert_sorted cmp x (array_sort cmp xs)"

text \<open>
  The comparison function both builders pass to \<open>sort\<close>; \<open>lc\<close> stands for
  \<open>String.prototype.localeCompare\<close>, which depends on the host's locale.
\<close>

definition compareNodes :: "(jsstring \<Rightarrow> jsstring \<Rightarrow> int) \<Rightarrow> node \<Rightarrow> node \<Rightarrow> int" where
  "compareNodes lc a b =
     (if node_type a = node_type b then lc (name a) (name b)
      else if node_type a = Directory then - 1 else 1)"

lemma set_insert_sorted: "set (insert_sorted cmp x ys) = insert x (set ys)"
  by (induction ys) auto

lemma set_array_sort: "set (array_sort cmp xs) = set xs"
  by (induction xs) (auto simp: set_insert_sorted)

lemma size_child: "c \<in> set cs \<Longrightarrow> size c < Suc (size_list size cs)"
  by (induction cs) auto

text \<open>\<open>sortStructure\<close>: sort the children, then visit each child of the sorted array.\<close>

function sortStructure :: "(jsstring \<Rightarrow> jsstring \<Rightarrow> int) \<Rightarrow> node \<Rightarrow> node" where
  "sortStructure lc (FileNode n p h) = FileNode n p h"
| "sortStructure lc (DirNode n p cs) =
     DirNode n p (map (sortStructure lc) (array_sort (compareNodes lc) cs))"
  by pat_completeness auto
termination
  by (relation "measure (\<lambda>(lc, nd). size nd)") (auto simp: set_array_sort size_child)

section \<open>Archive builder\<close>

definition MAX_FILE_SIZE_MB :: nat where
  "MAX_FILE_SIZE_MB = 50"

text \<open>The in-place change to the child that \<open>find\<close> returned: the first one of that name.\<close>

fun replaceChild :: "jsstring \<Rightarrow> node \<Rightarrow> node list \<Rightarrow> node list" where
  "replaceChild part nd [] = []"
| "replaceChild part nd (c # cs) =
     (if name c = part then nd # cs else c # replaceChild part nd cs)"

text \<open>
  The inner \<open>parts.forEach\<close>, from \<open>current\<close> on: the result is \<open>current\<close> after the
  remaining parts, with the file index. \<open>current.children.find\<close> throws when \<open>current\<close>
  is a file node. Where \<open>isDirectory\<close> is false the part is the last one, so the loop ends.
\<close>

fun addParts ::
  "zip_entry \<Rightarrow> jsstring list \<Rightarrow> node \<Rightarrow> (jsstring \<rightharpoonup> zip_entry) \<Rightarrow>
     error + (node \<times> (jsstring \<rightharpoonup> zip_entry))" where
  "addParts zipEntry [] current fileMap = Inr (current, fileMap)"
| "addParts zipEntry (part # rest) (FileNode n p h) fileMap = Inl TypeError"
| "addParts zipEntry (part # rest) (DirNode n p cs) fileMap =
     (let isDirectory = (dir zipEntry \<or> rest \<noteq> []) in
      case find (\<lambda>child. name child = part) cs of
        None \<Rightarrow>
          if isDirectory then
            (case addParts zipEntry rest (DirNode part (p @ slash @ part) []) fileMap of
               Inl e \<Rightarrow> Inl e
             | Inr (newDir, fileMap') \<Rightarrow> Inr (DirNode n p (cs @ [newDir]), fileMap'))
          else
            (let fileNode = FileNode part (p @ slash @ part) (ZipEntryHandle zipEntry)
             in Inr (DirNode n p (cs @ [fileNode]), fileMap(path fileNode \<mapsto> zipEntry)))
      | Some existing \<Rightarrow>
          if isDirectory then
            (case addParts zipEntry rest existing fileMap of
               Inl e \<Rightarrow> Inl e
             | Inr (existing', fileMap') \<Rightarrow>
                 Inr (DirNode n p (replaceChild part existing' cs), fileMap'))
          else Inr (DirNode n p cs, fileMap))"

definition entry_parts :: "zip_entry \<Rightarrow> jsstring list" where
  "entry_parts zipEntry = filter (\<lambda>part. length part > 0) (split 0x2F (relativePath zipEntry))"

text \<open>The outer \<open>forEach\<close> over \<open>Object.keys(content.files)\<close>.\<close>

fun addEntries ::
  "zip_entry list \<Rightarrow> node \<Rightarrow> (jsstring \<rightharpoonup> zip_entry) \<Rightarrow>
     error + (node \<times> (jsstring \<rightharpoonup> zip_entry))" where
  "addEntries [] root fileMap = Inr (root, fileMap)"
| "addEntries (zipEntry # zs) root fileMap =
     (case addParts zipEntry (entry_parts zipEntry) root fileMap of
        Inl e \<Rightarrow> Inl e
      | Inr (root', fileMap') \<Rightarrow> addEntries zs root' fileMap')"

text \<open>\<open>name.replace(/\.zip$/i, '')\<close>: a final \<open>.zip\<close>, in either case, is cut off.\<close>

definition ends_with_zip :: "jsstring \<Rightarrow> bool" where
  "ends_with_zip nm =
     (case rev nm of
        p # i # z # d # _ \<Rightarrow>
          d = 0x2E \<and> (z = 0x7A \<or> z = 0x5A) \<and> (i = 0x69 \<or> i = 0x49) \<and> (p = 0x70 \<or> p = 0x50)
      | _ \<Rightarrow> False)"

definition strip_zip :: "jsstring \<Rightarrow> jsstring" where
  "strip_zip nm = (if ends_with_zip nm then take (length nm - 4) nm else nm)"

text \<open>
  The dropped file: its name, its size in bytes, and what \<open>zip.loadAsync\<close> makes of it,
  a rejection with a message or the entries of \<open>content.files\<close> in key order.
\<close>

record zip_file =
  file_name :: jsstring
  file_size :: nat
  loadAsync_result :: "jsstring + zip_entry list"

text \<open>The returned root object: the tree and its \<open>fileMap\<close>.\<close>

record zip_structure =
  root :: node
  fileMap :: "jsstring \<rightharpoonup> zip_entry"

text \<open>
  \<open>extractZipStructure\<close>. The second component counts the calls of \<open>loadAsync\<close>.
\<close>

definition extractZipStructure ::
  "(jsstring \<Rightarrow> jsstring \<Rightarrow> int) \<Rightarrow> zip_file \<Rightarrow> (error + zip_structure) \<times> nat" where
  "extractZipStructure lc file =
     (if file_size file > MAX_FILE_SIZE_MB * 1024 * 1024
      then (Inl (FailedToProcessZIP (FileExceedsLimit MAX_FILE_SIZE_MB)), 0)
      else
        (case loadAsync_result file of
           Inl msg \<Rightarrow> (Inl (FailedToProcessZIP (LoadFailed msg)), 1)
         | Inr files \<Rightarrow>
             (case addEntries files (DirNode (strip_zip (file_name file)) [] []) Map.empty of
                Inl e \<Rightarrow> (Inl (FailedToProcessZIP e), 1)
              | Inr (r, fm) \<Rightarrow> (Inr \<lparr>root = sortStructure lc r, fileMap = fm\<rparr>, 1))))"

section \<open>Directory builder\<close>

text \<open>The one call of \<open>reader.readEntries\<close>: the error callback resolves with \<open>[]\<close>.\<close>

definition readEntries_once :: "fs_entry list option list \<Rightarrow> fs_entry list" where
  "readEntries_once results =
     (case results of
        [] \<Rightarrow> []
      | None # _ \<Rightarrow> []
      | Some batch # _ \<Rightarrow> batch)"

lemma size_readEntries_once:
  "size_list size (readEntries_once results) \<le> size_list (size_option (size_list size)) results"
  by (auto simp: readEntries_once_def split: list.splits option.splits)

text \<open>
  \<open>readDirectoryStructure\<close> with its \<open>for (const item of entries)\<close> loop. An entry
  without \<open>createReader\<close> makes the call throw.
\<close>

function readDirectoryStructure ::
    "(jsstring \<Rightarrow> jsstring \<Rightarrow> int) \<Rightarrow> fs_entry \<Rightarrow> jsstring \<Rightarrow> error + node"
  and readItems ::
    "(jsstring \<Rightarrow> jsstring \<Rightarrow> int) \<Rightarrow> fs_entry list \<Rightarrow> jsstring \<Rightarrow> error + node list" where
  "readDirectoryStructure lc (FileEntry nm) currentPath = Inl TypeError"
| "readDirectoryStructure lc (DirectoryEntry nm results) currentPath =
     (let pth = (if currentPath \<noteq> [] then currentPath @ slash @ nm else nm);
          entries = readEntries_once results
      in case readItems lc entries pth of
           Inl e \<Rightarrow> Inl e
         | Inr cs \<Rightarrow> Inr (DirNode nm pth (array_sort (compareNodes lc) cs)))"
| "readItems lc [] pth = Inr []"
| "readItems lc (item # items) pth =
     (case item of
        DirectoryEntry inm results \<Rightarrow>
          (case readDirectoryStructure lc item pth of
             Inl e \<Rightarrow> Inl e
           | Inr subDir \<Rightarrow>
               (case readItems lc items pth of
                  Inl e \<Rightarrow> Inl e
                | Inr cs \<Rightarrow> Inr (subDir # cs)))
      | FileEntry inm \<Rightarrow>
          (case readItems lc items pth of
             Inl e \<Rightarrow> Inl e
           | Inr cs \<Rightarrow> Inr (FileNode inm (pth @ slash @ inm) (FileEntryHandle item) # cs)))"
  by pat_completeness auto
termination
proof (relation "measure (\<lambda>x. case x of
          Inl (lc, e, p) \<Rightarrow> 2 * size e
        | Inr (lc, es, p) \<Rightarrow> 2 * size_list size es + 1)", goal_cases)
  case 1
  show ?case by simp
next
  case (2 lc nm results currentPath x xa)
  have "size_list size (readEntries_once results)
          \<le> size_list (size_option (size_list size)) results"
    by (rule size_readEntries_once)
  then show ?case using 2 by simp
qed auto

section \<open>Text renderer\<close>

text \<open>
  \<open>renderStructure\<close> below the root (\<open>isRoot = false\<close>); \<open>renderChildren\<close> is its
  \<open>flatMap\<close> over the children, where the last index gets \<open>isLast\<close>.
\<close>

fun renderLines :: "node \<Rightarrow> jsstring \<Rightarrow> bool \<Rightarrow> jsstring list"
  and renderChildren :: "node list \<Rightarrow> jsstring \<Rightarrow> jsstring list" where
  "renderLines (FileNode n p h) prefix isLast =
     [prefix @ (if isLast then connector_last else connector_mid) @ n]"
| "renderLines (DirNode n p cs) prefix isLast =
     (let line = prefix @ (if isLast then connector_last else connector_mid) @ n @ slash
      in if cs = [] then [line]
         else line # renderChildren cs (prefix @ (if isLast then indent_blank else indent_bar)))"
| "renderChildren [] prefix = []"
| "renderChildren (child # cs) prefix =
     renderLines child prefix (cs = []) @ renderChildren cs prefix"

text \<open>
  \<open>renderStructure(node)\<close> as its callers use it, with \<open>isRoot = true\<close>: a root without
  \<open>children\<close> makes \<open>flatMap\<close> throw.
\<close>

definition renderStructure :: "node \<Rightarrow> error + jsstring list" where
  "renderStructure node =
     (case node of
        DirNode n p cs \<Rightarrow> Inr ((n @ slash) # renderChildren cs indent_blank)
      | FileNode n p h \<Rightarrow> Inl TypeError)"

section \<open>Expansion state\<close>

fun getAllFolderPaths :: "node \<Rightarrow> jsstring list" where
  "getAllFolderPaths (FileNode n p h) = []"
| "getAllFolderPaths (DirNode n p cs) =
     foldl (\<lambda>paths child. paths @ getAllFolderPaths child) [p] cs"

definition areAllFoldersExpanded :: "node option \<Rightarrow> jsstring set \<Rightarrow> bool" where
  "areAllFoldersExpanded structure expandedFolders =
     (case structure of
        None \<Rightarrow> False
      | Some s \<Rightarrow>
          (let allPaths = getAllFolderPaths s
           in length allPaths > 0 \<and> list_all (\<lambda>path. path \<in> expandedFolders) allPaths))"

section \<open>A comparison function for the examples\<close>

text \<open>
  \<open>localeCompare\<close> is a parameter of the model. The examples instantiate it with the
  comparison by code units, one consistent comparison function among many.
\<close>

fun code_unit_compare :: "jsstring \<Rightarrow> jsstring \<Rightarrow> int" where
  "code_unit_compare [] [] = 0"
| "code_unit_compare [] (y # ys) = - 1"
| "code_unit_compare (x # xs) [] = 1"
| "code_unit_compare (x # xs) (y # ys) =
     (if x < y then - 1 else if y < x then 1 else code_unit_compare xs ys)"

section \<open>The size ceiling of the archive builder\<close>

lemma addParts_error: "addParts ze ps cur fm = Inl e \<Longrightarrow> e = TypeError"
  by (induction ze ps cur fm rule: addParts.induct)
     (auto simp: Let_def split: option.splits if_splits sum.splits)

lemma addEntries_error: "addEntries zs r fm = Inl e \<Longrightarrow> e = TypeError"
  by (induction zs r fm rule: addEntries.induct)
     (auto split: sum.splits dest: addParts_error)

definition big_file :: zip_file where
  "big_file = \<lparr>file_name = ascii ''big.zip'', file_size = 50 * 1024 * 1024 + 1,
                loadAsync_result = Inr []\<rparr>"

definition limit_file :: zip_file where
  "limit_file = \<lparr>file_name = ascii ''limit.zip'', file_size = 50 * 1024 * 1024,
                  loadAsync_result = Inr []\<rparr>"

text \<open>
  Claim C5. A file of more than \<open>50 * 1024 * 1024\<close> bytes makes \<open>extractZipStructure\<close>
  fail with the size-limit error, wrapped by its \<open>catch\<close>, and \<open>loadAsync\<close> has not been
  called: no tree is returned. At or below the limit the result is never the size-limit
  error and \<open>loadAsync\<close> is called once.
\<close>

theorem size_limit_checked_before_loadAsync:
  "(file_size file > 50 * 1024 * 1024 \<longrightarrow>
      extractZipStructure lc file = (Inl (FailedToProcessZIP (FileExceedsLimit 50)), 0))
   \<and> (file_size file \<le> 50 * 1024 * 1024 \<longrightarrow>
      fst (extractZipStructure lc file) \<noteq> Inl (FailedToProcessZIP (FileExceedsLimit 50))
      \<and> snd (extractZipStructure lc file) = 1)"
  by (auto simp: extractZipStructure_def MAX_FILE_SIZE_MB_def
           split: sum.splits dest: addEntries_error)

theorem size_limit_checked_before_loadAsync_witness:
  "file_size big_file > 50 * 1024 * 1024
   \<and> extractZipStructure code_unit_compare big_file
        = (Inl (FailedToProcessZIP (FileExceedsLimit 50)), 0)
   \<and> file_size limit_file \<le> 50 * 1024 * 1024
   \<and> fst (extractZipStructure code_unit_compare limit_file)
        \<noteq> Inl (FailedToProcessZIP (FileExceedsLimit 50))
   \<and> snd (extractZipStructure code_unit_compare limit_file) = 1"
  using size_limit_checked_before_loadAsync [of big_file code_unit_compare]
        size_limit_checked_before_loadAsync [of limit_file code_unit_compare]
  by (simp add: big_file_def limit_file_def)

section \<open>Full expansion\<close>

text \<open>Every node of a tree, the root first.\<close>

fun all_nodes :: "node \<Rightarrow> node list" where
  "all_nodes (FileNode n p h) = [FileNode n p h]"
| "all_nodes (DirNode n p cs) = DirNode n p cs # concat (map all_nodes cs)"

definition small_tree :: node where
  "small_tree = DirNode (ascii ''p'') (ascii ''p'')
     [DirNode (ascii ''s'') (ascii ''p/s'') [],
      FileNode (ascii ''f'') (ascii ''p/f'') (FileEntryHandle (FileEntry (ascii ''f'')))]"

lemma foldl_append_paths:
  "foldl (\<lambda>paths child. paths @ f child) acc cs = acc @ concat (map f cs)"
  by (induction cs arbitrary: acc) auto

lemma getAllFolderPaths_DirNode:
  "getAllFolderPaths (DirNode n p cs) = p # concat (map getAllFolderPaths cs)"
  by (simp add: foldl_append_paths)

lemma getAllFolderPaths_all_nodes:
  "getAllFolderPaths t = map path (filter (\<lambda>nd. node_type nd = Directory) (all_nodes t))"
proof (induction t)
  case (DirNode n p cs)
  have "concat (map getAllFolderPaths cs)
          = concat (map (\<lambda>c. map path (filter (\<lambda>nd. node_type nd = Directory) (all_nodes c))) cs)"
    using DirNode.IH by (induction cs) auto
  then show ?case
    by (simp add: map_concat filter_concat comp_def getAllFolderPaths_DirNode
             del: getAllFolderPaths.simps(2))
next
  case (FileNode n p h)
  show ?case by simp
qed

text \<open>
  Claim C9. \<open>areAllFoldersExpanded\<close> is false without a tree; for a tree, whose root is a
  directory, it is true exactly when every path of \<open>getAllFolderPaths\<close> is in the set of
  expanded folders (for any node it also asks for at least one such path, which a directory
  root supplies); and \<open>getAllFolderPaths\<close> lists the paths of exactly the directory nodes.
\<close>

theorem areAllFoldersExpanded_iff:
  "areAllFoldersExpanded None expandedFolders = False
   \<and> (node_type t = Directory \<longrightarrow>
        areAllFoldersExpanded (Some t) expandedFolders
          = (\<forall>p \<in> set (getAllFolderPaths t). p \<in> expandedFolders))
   \<and> areAllFoldersExpanded (Some t) expandedFolders
        = (getAllFolderPaths t \<noteq> []
           \<and> (\<forall>p \<in> set (getAllFolderPaths t). p \<in> expandedFolders))
   \<and> getAllFolderPaths t
        = map path (filter (\<lambda>nd. node_type nd = Directory) (all_nodes t))"
proof -
  have nonempty: "node_type t = Directory \<Longrightarrow> getAllFolderPaths t \<noteq> []"
    by (cases t) (simp_all add: foldl_append_paths)
  have exact: "areAllFoldersExpanded (Some t) expandedFolders
        = (getAllFolderPaths t \<noteq> []
           \<and> (\<forall>p \<in> set (getAllFolderPaths t). p \<in> expandedFolders))"
    by (simp add: areAllFoldersExpanded_def Let_def list_all_iff)
  have "areAllFoldersExpanded None expandedFolders = False"
    by (simp add: areAllFoldersExpanded_def)
  moreover have "node_type t = Directory \<longrightarrow>
        areAllFoldersExpanded (Some t) expandedFolders
          = (\<forall>p \<in> set (getAllFolderPaths t). p \<in> expandedFolders)"
    using nonempty exact by blast
  ultimately show ?thesis using exact getAllFolderPaths_all_nodes [of t] by blast
qed

theorem areAllFoldersExpanded_iff_witness:
  "node_type small_tree = Directory
   \<and> areAllFoldersExpanded (Some small_tree) {ascii ''p'', ascii ''p/s''} = True
   \<and> areAllFoldersExpanded (Some small_tree) {ascii ''p''} = False
   \<and> getAllFolderPaths small_tree = [ascii ''p'', ascii ''p/s'']"
  using areAllFoldersExpanded_iff [of "{ascii ''p'', ascii ''p/s''}" small_tree]
        areAllFoldersExpanded_iff [of "{ascii ''p''}" small_tree]
  by (simp add: small_tree_def ascii_def)

section \<open>The directory builder reads one batch per directory\<close>

lemma mset_insert_sorted: "mset (insert_sorted cmp x ys) = add_mset x (mset ys)"
  by (induction ys) auto

lemma mset_array_sort: "mset (array_sort cmp xs) = mset xs"
  by (induction xs) (auto simp: mset_insert_sorted)

text \<open>The kind of node an entry becomes (\<open>item.isDirectory\<close>).\<close>

fun entry_kind :: "fs_entry \<Rightarrow> kind" where
  "entry_kind (FileEntry n) = File"
| "entry_kind (DirectoryEntry n rs) = Directory"

text \<open>The path \<open>readDirectoryStructure\<close> gives the directory it is called on.\<close>

definition dir_path :: "jsstring \<Rightarrow> jsstring \<Rightarrow> jsstring" where
  "dir_path currentPath nm = (if currentPath \<noteq> [] then currentPath @ slash @ nm else nm)"

lemma read_total:
  "(\<forall>nm rs. entry = DirectoryEntry nm rs \<longrightarrow>
      (\<exists>cs. readDirectoryStructure lc entry currentPath = Inr (DirNode nm (dir_path currentPath nm) cs)))"
  "\<exists>cs. readItems lc items pth = Inr cs
        \<and> map name cs = map entry_name items \<and> map node_type cs = map entry_kind items"
proof (induction lc entry currentPath and lc items pth rule: readDirectoryStructure_readItems.induct)
  case (1 lc nm currentPath)
  then show ?case by simp
next
  case (2 lc nm results currentPath)
  from "2.IH" [OF refl refl] obtain cs where
    "readItems lc (readEntries_once results) (dir_path currentPath nm) = Inr cs"
    by (auto simp: dir_path_def)
  then show ?case by (simp add: Let_def dir_path_def)
next
  case (3 lc pth)
  then show ?case by simp
next
  case (4 lc item items pth)
  show ?case
  proof (cases item)
    case (FileEntry inm)
    from "4.IH"(1) [OF FileEntry] obtain cs where
      "readItems lc items pth = Inr cs" "map name cs = map entry_name items"
      "map node_type cs = map entry_kind items" by auto
    with FileEntry show ?thesis by simp
  next
    case (DirectoryEntry inm rs)
    from "4.IH"(2) [OF DirectoryEntry] DirectoryEntry obtain sub where
      sub: "readDirectoryStructure lc item pth = Inr (DirNode inm (dir_path pth inm) sub)"
      by auto
    from "4.IH"(3) [OF DirectoryEntry sub] obtain cs where
      "readItems lc items pth = Inr cs" "map name cs = map entry_name items"
      "map node_type cs = map entry_kind items" by auto
    with DirectoryEntry sub show ?thesis by simp
  qed
qed


lemma map_pair_eq:
  "map f xs = map g ys \<Longrightarrow> map f' xs = map g' ys
     \<Longrightarrow> map (\<lambda>x. (f x, f' x)) xs = map (\<lambda>y. (g y, g' y)) ys"
  by (induction xs arbitrary: ys) auto

text \<open>
  Claim C8. When the listing of a directory fails, \<open>readDirectoryStructure\<close> returns
  that directory's node with no children; called on a directory entry it always returns a
  tree, whatever fails below; and in the loop of a parent the failing directory becomes an
  empty node in front of the nodes of the remaining items.
\<close>

theorem listing_failure_gives_empty_children:
  "readDirectoryStructure lc (DirectoryEntry nm (None # later)) currentPath
     = Inr (DirNode nm (dir_path currentPath nm) [])
   \<and> (\<exists>cs. readDirectoryStructure lc (DirectoryEntry nm results) currentPath
          = Inr (DirNode nm (dir_path currentPath nm) cs))
   \<and> (\<exists>cs. readItems lc items pth = Inr cs
          \<and> readItems lc (DirectoryEntry nm (None # later) # items) pth
              = Inr (DirNode nm (dir_path pth nm) [] # cs))"
proof -
  have a: "readDirectoryStructure lc (DirectoryEntry nm (None # later)) p
             = Inr (DirNode nm (dir_path p nm) [])" for p
    by (simp add: Let_def readEntries_once_def dir_path_def)
  have b: "\<exists>cs. readDirectoryStructure lc (DirectoryEntry nm results) currentPath
             = Inr (DirNode nm (dir_path currentPath nm) cs)"
    using read_total(1) [of "DirectoryEntry nm results" lc currentPath] by simp
  obtain cs where c: "readItems lc items pth = Inr cs"
    using read_total(2) [of lc items pth] by auto
  have "readItems lc (DirectoryEntry nm (None # later) # items) pth
          = Inr (DirNode nm (dir_path pth nm) [] # cs)"
    using a [of pth] c by simp
  with a b c show ?thesis by blast
qed

text \<open>
  What the spec's words ask for: the entries of all batches, read until a batch is empty.
\<close>

fun drained_entries :: "fs_entry list option list \<Rightarrow> fs_entry list" where
  "drained_entries [] = []"
| "drained_entries (None # rs) = []"
| "drained_entries (Some [] # rs) = []"
| "drained_entries (Some (e # es) # rs) = (e # es) @ drained_entries rs"

definition paged_dir :: fs_entry where
  "paged_dir = DirectoryEntry (ascii ''d'')
     [Some [FileEntry (ascii ''a'')], Some [FileEntry (ascii ''b'')]]"

text \<open>
  Claim C7, as stated, fails: \<open>readEntries\<close> is called once, so an entry of the second
  batch is not among the children.
\<close>

theorem later_batches_dropped_counterexample:
  "readDirectoryStructure code_unit_compare paged_dir []
     = Inr (DirNode (ascii ''d'') (ascii ''d'')
              [FileNode (ascii ''a'') (ascii ''d/a'') (FileEntryHandle (FileEntry (ascii ''a'')))])
   \<and> drained_entries (read_results paged_dir) = [FileEntry (ascii ''a''), FileEntry (ascii ''b'')]
   \<and> ascii ''b'' \<notin> name ` set [FileNode (ascii ''a'') (ascii ''d/a'')
                                   (FileEntryHandle (FileEntry (ascii ''a'')))]"
  by (simp add: paged_dir_def readEntries_once_def Let_def ascii_def slash_def)

text \<open>
  Claim C7, amended. The children of the node are the entries of the first batch alone,
  name by name and kind by kind; a failed or missing first answer stands for the empty batch.
\<close>

theorem children_are_first_batch:
  "(\<exists>cs. readDirectoryStructure lc (DirectoryEntry nm results) currentPath
            = Inr (DirNode nm (dir_path currentPath nm) cs)
        \<and> mset (map (\<lambda>c. (name c, node_type c)) cs)
            = mset (map (\<lambda>e. (entry_name e, entry_kind e)) (readEntries_once results)))
   \<and> readEntries_once (Some batch # later) = batch
   \<and> readEntries_once (None # later) = []
   \<and> readEntries_once [] = []"
proof -
  obtain cs where cs: "readItems lc (readEntries_once results) (dir_path currentPath nm) = Inr cs"
      "map name cs = map entry_name (readEntries_once results)"
      "map node_type cs = map entry_kind (readEntries_once results)"
    using read_total(2) [of lc "readEntries_once results" "dir_path currentPath nm"] by auto
  have eq: "map (\<lambda>c. (name c, node_type c)) cs
          = map (\<lambda>e. (entry_name e, entry_kind e)) (readEntries_once results)"
    using cs(2,3) by (rule map_pair_eq)
  have "readDirectoryStructure lc (DirectoryEntry nm results) currentPath
          = Inr (DirNode nm (dir_path currentPath nm) (array_sort (compareNodes lc) cs))"
    using cs(1) by (simp add: Let_def dir_path_def)
  moreover have "mset (map (\<lambda>c. (name c, node_type c)) (array_sort (compareNodes lc) cs))
          = mset (map (\<lambda>c. (name c, node_type c)) cs)"
    by (simp add: mset_array_sort)
  then have "mset (map (\<lambda>c. (name c, node_type c)) (array_sort (compareNodes lc) cs))
          = mset (map (\<lambda>e. (entry_name e, entry_kind e)) (readEntries_once results))"
    by (simp only: eq)
  ultimately show ?thesis by (simp add: readEntries_once_def)
qed

section \<open>Rendering the example directory\<close>

definition proj :: fs_entry where
  "proj = DirectoryEntry (ascii ''proj'')
     [Some [FileEntry (ascii ''README.md''),
            DirectoryEntry (ascii ''src'')
              [Some [FileEntry (ascii ''index.js''),
                     DirectoryEntry (ascii ''utils'')
                       [Some [FileEntry (ascii ''helpers.js'')]]]]]]"

text \<open>A dropped directory, built and rendered as plain text.\<close>

definition render_directory :: "(jsstring \<Rightarrow> jsstring \<Rightarrow> int) \<Rightarrow> fs_entry \<Rightarrow> error + jsstring list" where
  "render_directory lc entry =
     (case readDirectoryStructure lc entry [] of
        Inl e \<Rightarrow> Inl e
      | Inr structure \<Rightarrow> renderStructure structure)"

text \<open>
  Claim C3, as stated, fails: the six lines of the spec's example put the file
  \<open>README.md\<close> before the directory \<open>src\<close>, and the sort puts directories first.
\<close>

theorem render_proj_counterexample:
  "render_directory code_unit_compare proj \<noteq>
     Inr [ascii ''proj/'',
          indent_blank @ connector_mid @ ascii ''README.md'',
          indent_blank @ connector_last @ ascii ''src/'',
          indent_blank @ indent_blank @ connector_mid @ ascii ''index.js'',
          indent_blank @ indent_blank @ connector_last @ ascii ''utils/'',
          indent_blank @ indent_blank @ indent_blank @ connector_last @ ascii ''helpers.js'']"
  by (simp add: render_directory_def proj_def readEntries_once_def compareNodes_def
        renderStructure_def ascii_def slash_def Let_def
        indent_blank_def indent_bar_def connector_mid_def connector_last_def)

text \<open>
  Claim C3, amended. For every \<open>localeCompare\<close> the example renders as six lines with
  the directories first: \<open>proj/\<close>, then \<open>src/\<close> with \<open>utils/\<close>, \<open>helpers.js\<close> and
  \<open>index.js\<close> below it, then \<open>README.md\<close>. The root line has no connector and ends in
  a slash; every indentation unit and connector is four code units long.
\<close>

theorem render_proj_directories_first:
  "render_directory lc proj =
     Inr [ascii ''proj/'',
          indent_blank @ connector_mid @ ascii ''src/'',
          indent_blank @ indent_bar @ connector_mid @ ascii ''utils/'',
          indent_blank @ indent_bar @ indent_bar @ connector_last @ ascii ''helpers.js'',
          indent_blank @ indent_bar @ connector_last @ ascii ''index.js'',
          indent_blank @ connector_last @ ascii ''README.md'']
   \<and> length indent_blank = 4 \<and> length indent_bar = 4
   \<and> length connector_mid = 4 \<and> length connector_last = 4"
  by (simp add: render_directory_def proj_def readEntries_once_def compareNodes_def
        renderStructure_def ascii_def slash_def Let_def
        indent_blank_def indent_bar_def connector_mid_def connector_last_def)

section \<open>Invariants of the archive builder\<close>

text \<open>The four ways one part of an entry changes the current directory node.\<close>

lemma addParts_DirNode_cases [consumes 1, case_names new_dir new_file existing_dir existing_file]:
  assumes "addParts ze (part # rest) (DirNode n p cs) fm = Inr (cur', fm')"
  obtains
    newDir where "find (\<lambda>child. name child = part) cs = None" "dir ze \<or> rest \<noteq> []"
      "addParts ze rest (DirNode part (p @ slash @ part) []) fm = Inr (newDir, fm')"
      "cur' = DirNode n p (cs @ [newDir])"
  | "find (\<lambda>child. name child = part) cs = None" "\<not> dir ze" "rest = []"
      "cur' = DirNode n p (cs @ [FileNode part (p @ slash @ part) (ZipEntryHandle ze)])"
      "fm' = fm(p @ slash @ part \<mapsto> ze)"
  | existing existing' where "find (\<lambda>child. name child = part) cs = Some existing"
      "dir ze \<or> rest \<noteq> []"
      "addParts ze rest existing fm = Inr (existing', fm')"
      "cur' = DirNode n p (replaceChild part existing' cs)"
  | existing where "find (\<lambda>child. name child = part) cs = Some existing" "\<not> dir ze" "rest = []"
      "cur' = DirNode n p cs" "fm' = fm"
proof (cases "find (\<lambda>child. name child = part) cs")
  case None
  show ?thesis
  proof (cases "dir ze \<or> rest \<noteq> []")
    case True
    with None assms that(1) show ?thesis
      by (simp add: Let_def split: sum.splits prod.splits)
  next
    case False
    with None assms that(2) show ?thesis
      by (simp add: Let_def)
  qed
next
  case (Some existing)
  show ?thesis
  proof (cases "dir ze \<or> rest \<noteq> []")
    case True
    with Some assms that(3) show ?thesis
      by (simp add: Let_def split: sum.splits prod.splits)
  next
    case False
    with Some assms that(4) show ?thesis
      by (simp add: Let_def)
  qed
qed


declare addParts.simps(3) [simp del]

lemma addParts_keeps:
  "addParts ze ps cur fm = Inr (cur', fm')
     \<Longrightarrow> name cur' = name cur \<and> path cur' = path cur \<and> node_type cur' = node_type cur"
proof (cases ps)
  case Nil
  then show "addParts ze ps cur fm = Inr (cur', fm') \<Longrightarrow> ?thesis" by simp
next
  case (Cons part rest)
  assume a: "addParts ze ps cur fm = Inr (cur', fm')"
  show ?thesis
  proof (cases cur)
    case (FileNode n p h)
    with a Cons show ?thesis by simp
  next
    case (DirNode n p cs)
    with a Cons have "addParts ze (part # rest) (DirNode n p cs) fm = Inr (cur', fm')" by simp
    then show ?thesis using DirNode by (cases rule: addParts_DirNode_cases) simp_all
  qed
qed

lemma find_Some_in: "find P xs = Some x \<Longrightarrow> x \<in> set xs \<and> P x"
  by (induction xs) (auto split: if_splits)

lemma map_name_replaceChild:
  "name nd = part \<Longrightarrow> map name (replaceChild part nd cs) = map name cs"
  by (induction cs) auto

lemma set_replaceChild: "set (replaceChild part nd cs) \<subseteq> insert nd (set cs)"
  by (induction cs) auto

lemma find_replaceChild:
  "find (\<lambda>c. name c = part) cs = Some ex \<Longrightarrow> name nd = part
     \<Longrightarrow> find (\<lambda>c. name c = part) (replaceChild part nd cs) = Some nd"
  by (induction cs) (auto split: if_splits)

text \<open>No two siblings share a name, at any depth.\<close>

fun distinct_names :: "node \<Rightarrow> bool" where
  "distinct_names (FileNode n p h) = True"
| "distinct_names (DirNode n p cs) =
     (distinct (map name cs) \<and> (\<forall>c \<in> set cs. distinct_names c))"

text \<open>Every child's path is its parent's path, a slash and its own name, at any depth.\<close>

fun joined_paths :: "node \<Rightarrow> bool" where
  "joined_paths (FileNode n p h) = True"
| "joined_paths (DirNode n p cs) =
     (\<forall>c \<in> set cs. path c = p @ slash @ name c \<and> joined_paths c)"

lemma addParts_distinct_names:
  "distinct_names cur \<Longrightarrow> addParts ze ps cur fm = Inr (cur', fm') \<Longrightarrow> distinct_names cur'"
proof (induction ps arbitrary: cur cur' fm fm')
  case Nil
  then show ?case by simp
next
  case (Cons part rest)
  show ?case
  proof (cases cur)
    case (FileNode n p h)
    with Cons.prems show ?thesis by simp
  next
    case (DirNode n p cs)
    with Cons.prems have a: "addParts ze (part # rest) (DirNode n p cs) fm = Inr (cur', fm')"
      and d: "distinct (map name cs)" "\<forall>c \<in> set cs. distinct_names c" by simp_all
    from a show ?thesis
    proof (cases rule: addParts_DirNode_cases)
      case (new_dir newDir)
      have "distinct_names newDir" using Cons.IH [OF _ new_dir(3)] by simp
      moreover have "name newDir = part" using addParts_keeps [OF new_dir(3)] by simp
      moreover have "part \<notin> name ` set cs" using new_dir(1) by (auto simp: find_None_iff)
      ultimately show ?thesis using new_dir(4) d by auto
    next
      case new_file
      moreover have "part \<notin> name ` set cs" using new_file(1) by (auto simp: find_None_iff)
      ultimately show ?thesis using d by auto
    next
      case (existing_dir existing existing')
      have ex: "existing \<in> set cs" "name existing = part"
        using find_Some_in [OF existing_dir(1)] by simp_all
      have "distinct_names existing'" using Cons.IH [OF _ existing_dir(3)] ex d by simp
      moreover have "name existing' = part" using addParts_keeps [OF existing_dir(3)] ex by simp
      ultimately show ?thesis
        using existing_dir(4) d set_replaceChild [of part existing' cs]
        by (auto simp: map_name_replaceChild)
    next
      case (existing_file existing)
      then show ?thesis using d by simp
    qed
  qed
qed

lemma addParts_joined_paths:
  "joined_paths cur \<Longrightarrow> addParts ze ps cur fm = Inr (cur', fm') \<Longrightarrow> joined_paths cur'"
proof (induction ps arbitrary: cur cur' fm fm')
  case Nil
  then show ?case by simp
next
  case (Cons part rest)
  show ?case
  proof (cases cur)
    case (FileNode n p h)
    with Cons.prems show ?thesis by simp
  next
    case (DirNode n p cs)
    with Cons.prems have a: "addParts ze (part # rest) (DirNode n p cs) fm = Inr (cur', fm')"
      and d: "\<forall>c \<in> set cs. path c = p @ slash @ name c \<and> joined_paths c" by simp_all
    from a show ?thesis
    proof (cases rule: addParts_DirNode_cases)
      case (new_dir newDir)
      have "joined_paths newDir" using Cons.IH [OF _ new_dir(3)] by simp
      moreover have "name newDir = part" "path newDir = p @ slash @ part"
        using addParts_keeps [OF new_dir(3)] by simp_all
      ultimately show ?thesis using new_dir(4) d by auto
    next
      case new_file
      then show ?thesis using d by auto
    next
      case (existing_dir existing existing')
      have ex: "existing \<in> set cs" "name existing = part"
        using find_Some_in [OF existing_dir(1)] by simp_all
      have "joined_paths existing'" using Cons.IH [OF _ existing_dir(3)] ex d by simp
      moreover have "name existing' = name existing" "path existing' = path existing"
        using addParts_keeps [OF existing_dir(3)] by simp_all
      ultimately show ?thesis
        using existing_dir(4) d ex set_replaceChild [of part existing' cs]
        by auto
    next
      case (existing_file existing)
      then show ?thesis using d by simp
    qed
  qed
qed


lemma addEntries_invariant:
  assumes step: "\<And>ze ps cur fm cur' fm'. P cur \<Longrightarrow> addParts ze ps cur fm = Inr (cur', fm') \<Longrightarrow> P cur'"
  shows "P r \<Longrightarrow> addEntries zs r fm = Inr (r', fm') \<Longrightarrow> P r'"
proof (induction zs arbitrary: r fm)
  case Nil
  then show ?case by simp
next
  case (Cons ze zs)
  from Cons.prems(2) obtain r1 fm1 where
    a: "addParts ze (entry_parts ze) r fm = Inr (r1, fm1)" and b: "addEntries zs r1 fm1 = Inr (r', fm')"
    by (auto split: sum.splits prod.splits)
  show ?case using Cons.IH [OF step [OF Cons.prems(1) a] b] .
qed

lemma sortStructure_keeps:
  "name (sortStructure lc t) = name t" "path (sortStructure lc t) = path t"
  "node_type (sortStructure lc t) = node_type t"
  by (cases t; simp)+

lemma sortStructure_distinct_names:
  "distinct_names t \<Longrightarrow> distinct_names (sortStructure lc t)"
proof (induction lc t rule: sortStructure.induct)
  case (1 lc n p h)
  then show ?case by simp
next
  case (2 lc n p cs)
  have "mset (map name (array_sort (compareNodes lc) cs)) = mset (map name cs)"
    by (simp add: mset_array_sort)
  then have "distinct (map name (array_sort (compareNodes lc) cs)) = distinct (map name cs)"
    by (rule mset_eq_imp_distinct_iff)
  moreover have "map name (map (sortStructure lc) (array_sort (compareNodes lc) cs))
                   = map name (array_sort (compareNodes lc) cs)"
    by (simp add: sortStructure_keeps)
  ultimately show ?case using 2 by (auto simp: set_array_sort simp del: map_map)
qed

lemma sortStructure_joined_paths:
  "joined_paths t \<Longrightarrow> joined_paths (sortStructure lc t)"
proof (induction lc t rule: sortStructure.induct)
  case (1 lc n p h)
  then show ?case by simp
next
  case (2 lc n p cs)
  then show ?case by (auto simp: set_array_sort sortStructure_keeps)
qed

lemma extractZipStructure_Inr:
  assumes "fst (extractZipStructure lc file) = Inr s"
  obtains files r where "loadAsync_result file = Inr files"
    "addEntries files (DirNode (strip_zip (file_name file)) [] []) Map.empty = Inr (r, fileMap s)"
    "root s = sortStructure lc r"
  using assms
  by (auto simp: extractZipStructure_def split: if_splits sum.splits prod.splits)

text \<open>The archive of the spec's merge example.\<close>

definition example_archive :: zip_file where
  "example_archive =
     \<lparr>file_name = ascii ''example.zip'', file_size = 1024,
      loadAsync_result = Inr
        [\<lparr>relativePath = ascii ''a/'', dir = True\<rparr>,
         \<lparr>relativePath = ascii ''a/b.txt'', dir = False\<rparr>,
         \<lparr>relativePath = ascii ''a/c/'', dir = True\<rparr>,
         \<lparr>relativePath = ascii ''a/c/d.txt'', dir = False\<rparr>]\<rparr>"

text \<open>
  Claim C4. The entries \<open>a/\<close>, \<open>a/b.txt\<close>, \<open>a/c/\<close>, \<open>a/c/d.txt\<close> give a root with the
  one child directory \<open>a\<close>, which holds the one directory \<open>c\<close> and the one file
  \<open>b.txt\<close>, and \<open>c\<close> holds the one file \<open>d.txt\<close>. For every archive, no directory of
  the returned tree has two children of the same name: a part that names an existing child
  goes on inside that child.
\<close>

theorem archive_merge_reuses_nodes:
  "map_sum id root (fst (extractZipStructure lc example_archive))
     = Inr (DirNode (ascii ''example'') []
         [DirNode (ascii ''a'') (ascii ''/a'')
            [DirNode (ascii ''c'') (ascii ''/a/c'')
               [FileNode (ascii ''d.txt'') (ascii ''/a/c/d.txt'')
                  (ZipEntryHandle \<lparr>relativePath = ascii ''a/c/d.txt'', dir = False\<rparr>)],
             FileNode (ascii ''b.txt'') (ascii ''/a/b.txt'')
               (ZipEntryHandle \<lparr>relativePath = ascii ''a/b.txt'', dir = False\<rparr>)]])
   \<and> (fst (extractZipStructure lc file) = Inr s \<longrightarrow> distinct_names (root s))"
proof
  show "map_sum id root (fst (extractZipStructure lc example_archive))
     = Inr (DirNode (ascii ''example'') []
         [DirNode (ascii ''a'') (ascii ''/a'')
            [DirNode (ascii ''c'') (ascii ''/a/c'')
               [FileNode (ascii ''d.txt'') (ascii ''/a/c/d.txt'')
                  (ZipEntryHandle \<lparr>relativePath = ascii ''a/c/d.txt'', dir = False\<rparr>)],
             FileNode (ascii ''b.txt'') (ascii ''/a/b.txt'')
               (ZipEntryHandle \<lparr>relativePath = ascii ''a/b.txt'', dir = False\<rparr>)]])"
    by (simp add: extractZipStructure_def example_archive_def MAX_FILE_SIZE_MB_def entry_parts_def
          ascii_def slash_def strip_zip_def ends_with_zip_def compareNodes_def Let_def
          addParts.simps(3))
  show "fst (extractZipStructure lc file) = Inr s \<longrightarrow> distinct_names (root s)"
  proof
    assume "fst (extractZipStructure lc file) = Inr s"
    then obtain files r where
      r: "addEntries files (DirNode (strip_zip (file_name file)) [] []) Map.empty = Inr (r, fileMap s)"
      and s: "root s = sortStructure lc r"
      by (rule extractZipStructure_Inr)
    have "distinct_names r"
      by (rule addEntries_invariant [where P = distinct_names, OF _ _ r])
         (auto intro: addParts_distinct_names)
    then show "distinct_names (root s)" using s by (simp add: sortStructure_distinct_names)
  qed
qed

theorem archive_merge_reuses_nodes_witness:
  "\<exists>s. fst (extractZipStructure code_unit_compare example_archive) = Inr s
        \<and> distinct_names (root s)"
proof -
  obtain s where s: "fst (extractZipStructure code_unit_compare example_archive) = Inr s"
    using archive_merge_reuses_nodes [of code_unit_compare example_archive]
    by (cases "fst (extractZipStructure code_unit_compare example_archive)") auto
  then have "distinct_names (root s)"
    using archive_merge_reuses_nodes [of code_unit_compare example_archive s] by blast
  with s show ?thesis by blast
qed

section \<open>Canonical paths\<close>

text \<open>
  What the directory builder gives the children of a directory of path \<open>p\<close>: a
  subdirectory the path \<open>dir_path p\<close> of its name, a file \<open>p\<close>, a slash and its name
  (stated here for a non-empty \<open>p\<close>).
\<close>

fun dir_paths :: "node \<Rightarrow> bool" where
  "dir_paths (FileNode n p h) = True"
| "dir_paths (DirNode n p cs) =
     (\<forall>c \<in> set cs.
        (if node_type c = Directory then path c = dir_path p (name c)
         else p \<noteq> [] \<longrightarrow> path c = p @ slash @ name c)
        \<and> dir_paths c)"

lemma read_paths:
  "readDirectoryStructure lc entry currentPath = Inr t
     \<Longrightarrow> path t = dir_path currentPath (entry_name entry) \<and> dir_paths t"
  "readItems lc items pth = Inr cs
     \<Longrightarrow> \<forall>c \<in> set cs.
           (if node_type c = Directory then path c = dir_path pth (name c)
            else path c = pth @ slash @ name c)
           \<and> dir_paths c"
proof (induction lc entry currentPath and lc items pth arbitrary: t and cs
       rule: readDirectoryStructure_readItems.induct)
  case (1 lc nm currentPath)
  then show ?case by simp
next
  case (2 lc nm results currentPath)
  from "2.prems" obtain cs where
    cs: "readItems lc (readEntries_once results) (dir_path currentPath nm) = Inr cs"
    and t: "t = DirNode nm (dir_path currentPath nm) (array_sort (compareNodes lc) cs)"
    by (auto simp: Let_def dir_path_def split: sum.splits)
  have "\<forall>c \<in> set cs.
           (if node_type c = Directory then path c = dir_path (dir_path currentPath nm) (name c)
            else path c = dir_path currentPath nm @ slash @ name c)
           \<and> dir_paths c"
    using "2.IH" [OF _ refl, of "dir_path currentPath nm" cs] cs by (simp add: dir_path_def)
  then show ?case using t by (auto simp: set_array_sort)
next
  case (3 lc pth)
  then show ?case by simp
next
  case (4 lc item items pth)
  show ?case
  proof (cases item)
    case (FileEntry inm)
    with "4.prems" obtain cs' where
      cs': "readItems lc items pth = Inr cs'"
      and c: "cs = FileNode inm (pth @ slash @ inm) (FileEntryHandle item) # cs'"
      by (auto split: sum.splits)
    from "4.IH"(1) [OF FileEntry cs'] c show ?thesis by simp
  next
    case (DirectoryEntry inm rs)
    with "4.prems" obtain subDir cs' where
      sub: "readDirectoryStructure lc item pth = Inr subDir"
      and cs': "readItems lc items pth = Inr cs'"
      and c: "cs = subDir # cs'"
      by (auto split: sum.splits)
    obtain sc where sd: "subDir = DirNode inm (dir_path pth inm) sc"
      using read_total(1) [of item lc pth] DirectoryEntry sub by auto
    from "4.IH"(2) [OF DirectoryEntry sub] "4.IH"(3) [OF DirectoryEntry sub cs'] c sd
    show ?thesis by simp
  qed
qed

lemma read_directory_total:
  "\<exists>cs. readDirectoryStructure lc (DirectoryEntry nm rs) currentPath
          = Inr (DirNode nm (dir_path currentPath nm) cs)"
  using read_total(1) [of "DirectoryEntry nm rs" lc currentPath] by blast

text \<open>An archive with the single file entry \<open>a\<close>.\<close>

definition one_file_archive :: zip_file where
  "one_file_archive =
     \<lparr>file_name = ascii ''x.zip'', file_size = 100,
      loadAsync_result = Inr [\<lparr>relativePath = ascii ''a'', dir = False\<rparr>]\<rparr>"

text \<open>
  Claim C2, as stated, fails: the archive builder joins with a slash also below the root,
  whose path is empty, so the child \<open>a\<close> of the root has the path \<open>/a\<close>, not \<open>a\<close>.
\<close>

theorem archive_root_child_path_counterexample:
  "map_sum id root (fst (extractZipStructure code_unit_compare one_file_archive))
     = Inr (DirNode (ascii ''x'') []
              [FileNode (ascii ''a'') (ascii ''/a'')
                 (ZipEntryHandle \<lparr>relativePath = ascii ''a'', dir = False\<rparr>)])
   \<and> ascii ''/a'' \<noteq> dir_path [] (ascii ''a'')"
  by (simp add: extractZipStructure_def one_file_archive_def MAX_FILE_SIZE_MB_def entry_parts_def
        ascii_def slash_def strip_zip_def ends_with_zip_def compareNodes_def Let_def
        addParts.simps(3) dir_path_def)

text \<open>
  Claim C2, amended. In a tree of the archive builder the root has the empty path and every
  child's path is its parent's path, a slash and the child's name, also below the root. In
  a tree of the directory builder the root's path is \<open>dir_path\<close> of the given path and
  its name, a subdirectory's path is \<open>dir_path\<close> of its parent's path and its name, and
  a file below a parent of non-empty path has the parent's path, a slash and its name.
\<close>

theorem child_paths_of_both_builders:
  "(fst (extractZipStructure lc file) = Inr s \<longrightarrow> path (root s) = [] \<and> joined_paths (root s))
   \<and> (readDirectoryStructure lc entry currentPath = Inr t \<longrightarrow>
        path t = dir_path currentPath (entry_name entry) \<and> dir_paths t)"
proof (intro conjI impI)
  assume "fst (extractZipStructure lc file) = Inr s"
  then obtain files r where
    r: "addEntries files (DirNode (strip_zip (file_name file)) [] []) Map.empty = Inr (r, fileMap s)"
    and s: "root s = sortStructure lc r"
    by (rule extractZipStructure_Inr)
  have "joined_paths r"
    by (rule addEntries_invariant [where P = joined_paths, OF _ _ r])
       (auto intro: addParts_joined_paths)
  then show "joined_paths (root s)" using s by (simp add: sortStructure_joined_paths)
  have "path r = []"
    by (rule addEntries_invariant [where P = "\<lambda>nd. path nd = []", OF _ _ r])
       (auto dest: addParts_keeps)
  then show "path (root s) = []" using s by (simp add: sortStructure_keeps)
next
  assume "readDirectoryStructure lc entry currentPath = Inr t"
  then show "path t = dir_path currentPath (entry_name entry)" "dir_paths t"
    using read_paths(1) by blast+
qed

theorem child_paths_of_both_builders_witness:
  "(\<exists>s. fst (extractZipStructure code_unit_compare example_archive) = Inr s
         \<and> path (root s) = [] \<and> joined_paths (root s))
   \<and> (\<exists>t. readDirectoryStructure code_unit_compare proj [] = Inr t
         \<and> path t = dir_path [] (entry_name proj) \<and> dir_paths t)"
proof -
  obtain s where s: "fst (extractZipStructure code_unit_compare example_archive) = Inr s"
    by (simp add: extractZipStructure_def example_archive_def MAX_FILE_SIZE_MB_def entry_parts_def
          ascii_def slash_def addParts.simps(3) Let_def)
  obtain t where t: "readDirectoryStructure code_unit_compare proj [] = Inr t"
    unfolding proj_def using read_directory_total by blast
  show ?thesis
    using child_paths_of_both_builders [of code_unit_compare example_archive s proj "[]" t] s t
    by blast
qed

section \<open>The kinds of the nodes an entry creates\<close>

text \<open>The node reached from a node by a list of names, each found as \<open>find\<close> finds it.\<close>

fun lookup :: "node \<Rightarrow> jsstring list \<Rightarrow> node option" where
  "lookup nd [] = Some nd"
| "lookup (FileNode n p h) (part # rest) = None"
| "lookup (DirNode n p cs) (part # rest) =
     (case find (\<lambda>child. name child = part) cs of
        None \<Rightarrow> None
      | Some child \<Rightarrow> lookup child rest)"

lemma find_append_new:
  "find P cs = None \<Longrightarrow> P nd \<Longrightarrow> find P (cs @ [nd]) = Some nd"
  by (induction cs) (auto split: if_splits)

lemma addParts_created_kind:
  "addParts ze ps cur fm = Inr (cur', fm') \<Longrightarrow> 0 < k \<Longrightarrow> k \<le> length ps
     \<Longrightarrow> lookup cur (take k ps) = None
     \<Longrightarrow> \<exists>nd. lookup cur' (take k ps) = Some nd \<and> name nd = ps ! (k - 1)
            \<and> (node_type nd = Directory \<longleftrightarrow> dir ze \<or> k < length ps)"
proof (induction ps arbitrary: cur cur' fm fm' k)
  case Nil
  then show ?case by simp
next
  case (Cons part rest)
  obtain j where k: "k = Suc j" using Cons.prems(2) by (cases k) auto
  show ?case
  proof (cases cur)
    case (FileNode n p h)
    with Cons.prems show ?thesis by simp
  next
    case (DirNode n p cs)
    with Cons.prems have a: "addParts ze (part # rest) (DirNode n p cs) fm = Inr (cur', fm')"
      by simp
    from a show ?thesis
    proof (cases rule: addParts_DirNode_cases)
      case (new_dir newDir)
      have keep: "name newDir = part" "node_type newDir = Directory"
        using addParts_keeps [OF new_dir(3)] by simp_all
      have f: "find (\<lambda>child. name child = part) (cs @ [newDir]) = Some newDir"
        using new_dir(1) keep(1) by (rule find_append_new)
      show ?thesis
      proof (cases j)
        case 0
        with k f new_dir keep show ?thesis by auto
      next
        case (Suc i)
        then have "rest \<noteq> []" using k Cons.prems(3) by auto
        then have "lookup (DirNode part (p @ slash @ part) []) (take j rest) = None"
          using Suc by (cases rest) simp_all
        from Cons.IH [OF new_dir(3) _ _ this] Suc k Cons.prems(3) f new_dir(4)
        show ?thesis by auto
      qed
    next
      case new_file
      have f: "find (\<lambda>child. name child = part)
                 (cs @ [FileNode part (p @ slash @ part) (ZipEntryHandle ze)])
               = Some (FileNode part (p @ slash @ part) (ZipEntryHandle ze))"
        using new_file(1) by (rule find_append_new) simp
      have "j = 0" using k Cons.prems(3) new_file(3) by simp
      with k f new_file show ?thesis by auto
    next
      case (existing_dir existing existing')
      have keep: "name existing' = part" "node_type existing' = node_type existing"
        using addParts_keeps [OF existing_dir(3)] find_Some_in [OF existing_dir(1)] by simp_all
      have f: "find (\<lambda>child. name child = part) (replaceChild part existing' cs) = Some existing'"
        using existing_dir(1) keep(1) by (rule find_replaceChild)
      have l: "lookup existing (take j rest) = None"
        using Cons.prems(4) DirNode k existing_dir(1) by simp
      then obtain i where j: "j = Suc i" by (cases j) auto
      from Cons.IH [OF existing_dir(3) _ _ l] j k Cons.prems(3) f existing_dir(4)
      show ?thesis by auto
    next
      case (existing_file existing)
      have "j = 0" using k Cons.prems(3) existing_file(3) by simp
      with Cons.prems(4) DirNode k existing_file(1) show ?thesis by simp
    qed
  qed
qed

lemma addParts_fresh:
  "\<exists>cur' fm'. addParts ze ps (DirNode n p []) fm = Inr (cur', fm')"
proof (induction ps arbitrary: n p)
  case Nil
  show ?case by simp
next
  case (Cons part rest)
  obtain newDir fm1 where
    "addParts ze rest (DirNode part (p @ slash @ part) []) fm = Inr (newDir, fm1)"
    using Cons.IH by blast
  then show ?case by (simp add: addParts.simps(3) Let_def)
qed

text \<open>A file entry three parts deep, and a root that already holds the directory \<open>a\<close>.\<close>

definition nested_file_entry :: zip_entry where
  "nested_file_entry = \<lparr>relativePath = ascii ''a/c/d.txt'', dir = False\<rparr>"

definition root_with_a :: node where
  "root_with_a = DirNode (ascii ''example'') [] [DirNode (ascii ''a'') (ascii ''/a'') []]"

text \<open>
  Claim C6. When the parts of an entry have been added and the node at the first \<open>k\<close>
  parts did not exist before, the node now there bears the \<open>k\<close>-th part as its name and
  is a directory exactly if the entry's \<open>dir\<close> flag is set or the part is not the last:
  the nodes created for all parts but the last are directories, the last one a directory
  for a flagged entry and a file otherwise. On an empty directory node the parts of every
  entry are added without an exception.
\<close>

theorem created_node_kinds:
  "(addParts ze (entry_parts ze) cur fm = Inr (cur', fm') \<and>
    0 < k \<and> k \<le> length (entry_parts ze) \<and>
    lookup cur (take k (entry_parts ze)) = None \<longrightarrow>
      (\<exists>nd. lookup cur' (take k (entry_parts ze)) = Some nd
          \<and> name nd = entry_parts ze ! (k - 1)
          \<and> (node_type nd = Directory \<longleftrightarrow> dir ze \<or> k < length (entry_parts ze))))
   \<and> (\<exists>r fm1. addParts ze (entry_parts ze) (DirNode n p []) fm = Inr (r, fm1))"
  using addParts_created_kind [of ze "entry_parts ze" cur fm cur' fm' k]
        addParts_fresh [of ze "entry_parts ze" n p fm]
  by blast

theorem created_node_kinds_witness:
  "\<exists>cur' fm'.
      addParts nested_file_entry (entry_parts nested_file_entry) root_with_a Map.empty
        = Inr (cur', fm')
      \<and> lookup root_with_a (take 2 (entry_parts nested_file_entry)) = None
      \<and> (\<exists>nd. lookup cur' (take 2 (entry_parts nested_file_entry)) = Some nd
             \<and> name nd = ascii ''c'' \<and> node_type nd = Directory)
      \<and> (\<exists>nd. lookup cur' (take 3 (entry_parts nested_file_entry)) = Some nd
             \<and> name nd = ascii ''d.txt'' \<and> node_type nd = File)"
proof -
  have ps: "entry_parts nested_file_entry = [ascii ''a'', ascii ''c'', ascii ''d.txt'']"
    by (simp add: entry_parts_def nested_file_entry_def ascii_def)
  obtain cur' fm' where
    a: "addParts nested_file_entry (entry_parts nested_file_entry) root_with_a Map.empty
          = Inr (cur', fm')"
    unfolding ps
    by (simp add: root_with_a_def nested_file_entry_def ascii_def addParts.simps(3) Let_def)
  have l2: "lookup root_with_a (take 2 (entry_parts nested_file_entry)) = None"
    by (simp add: ps root_with_a_def ascii_def)
  have l3: "lookup root_with_a (take 3 (entry_parts nested_file_entry)) = None"
    by (simp add: ps root_with_a_def ascii_def)
  have d: "\<not> dir nested_file_entry" by (simp add: nested_file_entry_def)
  have "\<exists>nd. lookup cur' (take 2 (entry_parts nested_file_entry)) = Some nd
             \<and> name nd = ascii ''c'' \<and> node_type nd = Directory"
    using created_node_kinds [of nested_file_entry root_with_a Map.empty cur' fm' 2] a l2 d
    by (simp add: ps)
  moreover have "\<exists>nd. lookup cur' (take 3 (entry_parts nested_file_entry)) = Some nd
             \<and> name nd = ascii ''d.txt'' \<and> node_type nd = File"
    using created_node_kinds [of nested_file_entry root_with_a Map.empty cur' fm' 3] a l3 d
    by (simp add: ps) (metis kind.exhaust)
  ultimately show ?thesis using a l2 by blast
qed

section \<open>The canonical order of children\<close>

text \<open>
  What ECMAScript requires of \<open>localeCompare\<close>, a consistent comparison function: every
  string equals itself, the sign turns with the arguments, and "not after" is transitive.
\<close>

definition consistent_comparator :: "(jsstring \<Rightarrow> jsstring \<Rightarrow> int) \<Rightarrow> bool" where
  "consistent_comparator lc \<longleftrightarrow>
     (\<forall>a. lc a a = 0) \<and>
     (\<forall>a b. (lc a b < 0) = (lc b a > 0)) \<and>
     (\<forall>a b c. lc a b \<le> 0 \<and> lc b c \<le> 0 \<longrightarrow> lc a c \<le> 0)"

text \<open>
  Two siblings stand in order when a file is not before a directory and, for two of the
  same kind, the first name is not after the second by \<open>localeCompare\<close>.
\<close>

definition in_order :: "(jsstring \<Rightarrow> jsstring \<Rightarrow> int) \<Rightarrow> node \<Rightarrow> node \<Rightarrow> bool" where
  "in_order lc a b \<longleftrightarrow>
     (node_type a = File \<longrightarrow> node_type b = File) \<and>
     (node_type a = node_type b \<longrightarrow> lc (name a) (name b) \<le> 0)"

text \<open>Every directory node, at every depth, has its children pairwise in order.\<close>

fun canonically_ordered :: "(jsstring \<Rightarrow> jsstring \<Rightarrow> int) \<Rightarrow> node \<Rightarrow> bool" where
  "canonically_ordered lc (FileNode n p h) = True"
| "canonically_ordered lc (DirNode n p cs) =
     (sorted_wrt (in_order lc) cs \<and> (\<forall>c \<in> set cs. canonically_ordered lc c))"

lemma code_unit_compare_refl: "code_unit_compare a a = 0"
  by (induction a) auto

lemma code_unit_compare_sym: "(code_unit_compare a b < 0) = (code_unit_compare b a > 0)"
  by (induction a b rule: code_unit_compare.induct) auto

lemma code_unit_compare_eq: "code_unit_compare a b = 0 \<Longrightarrow> a = b"
  by (induction a b rule: code_unit_compare.induct) (auto split: if_splits)

lemma code_unit_compare_trans:
  "code_unit_compare a b \<le> 0 \<Longrightarrow> code_unit_compare b c \<le> 0 \<Longrightarrow> code_unit_compare a c \<le> 0"
proof (induction a b arbitrary: c rule: code_unit_compare.induct)
  case 1
  then show ?case by simp
next
  case (2 y ys)
  then show ?case by (cases c) auto
next
  case (3 x xs)
  then show ?case by simp
next
  case (4 x xs y ys)
  show ?case
  proof (cases c)
    case Nil
    with 4 show ?thesis by (auto split: if_splits)
  next
    case (Cons z zs)
    with "4.prems" "4.IH" [of zs] show ?thesis by (auto split: if_splits)
  qed
qed

lemma consistent_code_unit_compare: "consistent_comparator code_unit_compare"
  unfolding consistent_comparator_def
  using code_unit_compare_refl code_unit_compare_sym code_unit_compare_trans by blast

lemma sorted_insert_sorted:
  assumes total: "\<And>x y. cmp x y > 0 \<Longrightarrow> cmp y x \<le> 0"
    and trans: "\<And>x y z. cmp x y \<le> 0 \<Longrightarrow> cmp y z \<le> 0 \<Longrightarrow> cmp x z \<le> 0"
  shows "sorted_wrt (\<lambda>a b. cmp a b \<le> 0) ys
           \<Longrightarrow> sorted_wrt (\<lambda>a b. cmp a b \<le> 0) (insert_sorted cmp x ys)"
proof (induction ys)
  case Nil
  show ?case by simp
next
  case (Cons y ys)
  show ?case
  proof (cases "cmp x y \<le> 0")
    case True
    then have "\<forall>z \<in> set ys. cmp x z \<le> 0" using Cons.prems trans by auto
    with True Cons.prems show ?thesis by simp
  next
    case False
    then have "cmp y x \<le> 0" using total [of x y] by simp
    with False Cons show ?thesis by (auto simp: set_insert_sorted)
  qed
qed

lemma sorted_array_sort:
  assumes total: "\<And>x y. cmp x y > 0 \<Longrightarrow> cmp y x \<le> 0"
    and trans: "\<And>x y z. cmp x y \<le> 0 \<Longrightarrow> cmp y z \<le> 0 \<Longrightarrow> cmp x z \<le> 0"
  shows "sorted_wrt (\<lambda>a b. cmp a b \<le> 0) (array_sort cmp xs)"
  by (induction xs) (auto intro: sorted_insert_sorted [OF total trans])

lemma compareNodes_in_order: "compareNodes lc a b \<le> 0 \<longleftrightarrow> in_order lc a b"
  by (cases "node_type a"; cases "node_type b") (auto simp: compareNodes_def in_order_def)

lemma consistent_sym: "consistent_comparator lc \<Longrightarrow> (lc a b < 0) = (lc b a > 0)"
  unfolding consistent_comparator_def by blast

lemma consistent_trans:
  "consistent_comparator lc \<Longrightarrow> lc a b \<le> 0 \<Longrightarrow> lc b c \<le> 0 \<Longrightarrow> lc a c \<le> 0"
  unfolding consistent_comparator_def by blast

lemma compareNodes_total:
  assumes "consistent_comparator lc" "compareNodes lc a b > 0"
  shows "compareNodes lc b a \<le> 0"
proof (cases "node_type a = node_type b")
  case True
  then have "lc (name a) (name b) > 0" using assms(2) by (simp add: compareNodes_def)
  then have "lc (name b) (name a) < 0" using consistent_sym [OF assms(1)] by simp
  then show ?thesis using True by (simp add: compareNodes_def)
next
  case False
  then have "node_type a \<noteq> Directory"
    using assms(2) by (auto simp: compareNodes_def)
  then have "node_type b = Directory" using False by (cases "node_type a"; cases "node_type b") auto
  then show ?thesis using False by (simp add: compareNodes_def)
qed

lemma compareNodes_trans:
  assumes "consistent_comparator lc" "compareNodes lc a b \<le> 0" "compareNodes lc b c \<le> 0"
  shows "compareNodes lc a c \<le> 0"
proof -
  have ab: "in_order lc a b" and bc: "in_order lc b c"
    using assms(2,3) by (simp_all add: compareNodes_in_order)
  have "in_order lc a c"
  proof (cases "node_type a = node_type c")
    case False
    then show ?thesis using ab bc
      by (cases "node_type a"; cases "node_type b"; cases "node_type c")
         (simp_all add: in_order_def)
  next
    case True
    then have "node_type a = node_type b" "node_type b = node_type c"
      using ab bc by (cases "node_type a"; cases "node_type b"; cases "node_type c";
                      simp add: in_order_def)+
    then have "lc (name a) (name b) \<le> 0" "lc (name b) (name c) \<le> 0"
      using ab bc by (simp_all add: in_order_def)
    then have "lc (name a) (name c) \<le> 0" by (rule consistent_trans [OF assms(1)])
    then show ?thesis using True ab bc by (simp add: in_order_def)
  qed
  then show ?thesis by (simp add: compareNodes_in_order)
qed

lemma sorted_children:
  assumes "consistent_comparator lc"
  shows "sorted_wrt (in_order lc) (array_sort (compareNodes lc) cs)"
proof -
  have "sorted_wrt (\<lambda>a b. compareNodes lc a b \<le> 0) (array_sort (compareNodes lc) cs)"
    by (rule sorted_array_sort)
       (auto intro: compareNodes_total [OF assms] compareNodes_trans [OF assms])
  then show ?thesis by (simp add: compareNodes_in_order)
qed


lemma in_order_sortStructure:
  "in_order lc (sortStructure lc' a) (sortStructure lc' b) = in_order lc a b"
  by (simp add: in_order_def sortStructure_keeps)

lemma sortStructure_canonically_ordered:
  "consistent_comparator lc \<Longrightarrow> canonically_ordered lc (sortStructure lc t)"
proof (induction lc t rule: sortStructure.induct)
  case (1 lc n p h)
  show ?case by simp
next
  case (2 lc n p cs)
  have "sorted_wrt (in_order lc) (map (sortStructure lc) (array_sort (compareNodes lc) cs))"
    using sorted_children [OF "2.prems", of cs]
    by (simp add: sorted_wrt_map in_order_sortStructure)
  then show ?case using 2 by (auto simp: set_array_sort)
qed

lemma read_canonically_ordered:
  "consistent_comparator lc \<Longrightarrow> readDirectoryStructure lc entry currentPath = Inr t
     \<Longrightarrow> canonically_ordered lc t"
  "consistent_comparator lc \<Longrightarrow> readItems lc items pth = Inr cs
     \<Longrightarrow> \<forall>c \<in> set cs. canonically_ordered lc c"
proof (induction lc entry currentPath and lc items pth arbitrary: t and cs
       rule: readDirectoryStructure_readItems.induct)
  case (1 lc nm currentPath)
  then show ?case by simp
next
  case (2 lc nm results currentPath)
  from "2.prems"(2) obtain cs where
    cs: "readItems lc (readEntries_once results) (dir_path currentPath nm) = Inr cs"
    and t: "t = DirNode nm (dir_path currentPath nm) (array_sort (compareNodes lc) cs)"
    by (auto simp: Let_def dir_path_def split: sum.splits)
  have "\<forall>c \<in> set cs. canonically_ordered lc c"
    using "2.IH" [OF _ refl "2.prems"(1), of "dir_path currentPath nm" cs] cs
    by (simp add: dir_path_def)
  then show ?case using t sorted_children [OF "2.prems"(1), of cs] by (simp add: set_array_sort)
next
  case (3 lc pth)
  then show ?case by simp
next
  case (4 lc item items pth)
  show ?case
  proof (cases item)
    case (FileEntry inm)
    with "4.prems"(2) obtain cs' where
      cs': "readItems lc items pth = Inr cs'"
      and c: "cs = FileNode inm (pth @ slash @ inm) (FileEntryHandle item) # cs'"
      by (auto split: sum.splits)
    from "4.IH"(1) [OF FileEntry "4.prems"(1) cs'] c show ?thesis by simp
  next
    case (DirectoryEntry inm rs)
    with "4.prems"(2) obtain subDir cs' where
      sub: "readDirectoryStructure lc item pth = Inr subDir"
      and cs': "readItems lc items pth = Inr cs'"
      and c: "cs = subDir # cs'"
      by (auto split: sum.splits)
    from "4.IH"(2) [OF DirectoryEntry "4.prems"(1) sub]
         "4.IH"(3) [OF DirectoryEntry sub "4.prems"(1) cs'] c
    show ?thesis by simp
  qed
qed

text \<open>
  Claim C1. With a consistent \<open>localeCompare\<close>, in the tree \<open>extractZipStructure\<close>
  returns (after \<open>sortStructure\<close>) and in the tree \<open>readDirectoryStructure\<close> returns
  (each call sorts its own children), every directory node at every depth has all its
  directory children before all its file children, and within each kind the names are
  non-decreasing by \<open>localeCompare\<close>.
\<close>

theorem children_canonically_ordered:
  "consistent_comparator lc \<Longrightarrow>
     (fst (extractZipStructure lc file) = Inr s \<longrightarrow> canonically_ordered lc (root s))
     \<and> (readDirectoryStructure lc entry currentPath = Inr t \<longrightarrow> canonically_ordered lc t)"
proof (intro conjI impI)
  assume c: "consistent_comparator lc"
  {
    assume "fst (extractZipStructure lc file) = Inr s"
    then obtain files r where "root s = sortStructure lc r"
      by (rule extractZipStructure_Inr)
    then show "canonically_ordered lc (root s)"
      using sortStructure_canonically_ordered [OF c] by simp
  }
  {
    assume "readDirectoryStructure lc entry currentPath = Inr t"
    then show "canonically_ordered lc t" using read_canonically_ordered(1) [OF c] by blast
  }
qed

text \<open>An archive and a directory whose entries arrive out of order, and their trees.\<close>

definition unsorted_archive :: zip_file where
  "unsorted_archive =
     \<lparr>file_name = ascii ''u.zip'', file_size = 2048,
      loadAsync_result = Inr
        [\<lparr>relativePath = ascii ''z.txt'', dir = False\<rparr>,
         \<lparr>relativePath = ascii ''m/q.txt'', dir = False\<rparr>,
         \<lparr>relativePath = ascii ''b.txt'', dir = False\<rparr>,
         \<lparr>relativePath = ascii ''m/k/'', dir = True\<rparr>,
         \<lparr>relativePath = ascii ''c/'', dir = True\<rparr>]\<rparr>"

definition unsorted_dir :: fs_entry where
  "unsorted_dir = DirectoryEntry (ascii ''w'')
     [Some [FileEntry (ascii ''z.txt''),
            DirectoryEntry (ascii ''m'')
              [Some [FileEntry (ascii ''q.txt''), DirectoryEntry (ascii ''k'') []]],
            FileEntry (ascii ''b.txt''),
            DirectoryEntry (ascii ''c'') [None]]]"

definition unsorted_archive_result :: node where
  "unsorted_archive_result =
     DirNode (ascii ''u'') []
       [DirNode (ascii ''c'') (ascii ''/c'') [],
        DirNode (ascii ''m'') (ascii ''/m'')
          [DirNode (ascii ''k'') (ascii ''/m/k'') [],
           FileNode (ascii ''q.txt'') (ascii ''/m/q.txt'')
             (ZipEntryHandle \<lparr>relativePath = ascii ''m/q.txt'', dir = False\<rparr>)],
        FileNode (ascii ''b.txt'') (ascii ''/b.txt'')
          (ZipEntryHandle \<lparr>relativePath = ascii ''b.txt'', dir = False\<rparr>),
        FileNode (ascii ''z.txt'') (ascii ''/z.txt'')
          (ZipEntryHandle \<lparr>relativePath = ascii ''z.txt'', dir = False\<rparr>)]"

definition unsorted_dir_result :: node where
  "unsorted_dir_result =
     DirNode (ascii ''w'') (ascii ''w'')
       [DirNode (ascii ''c'') (ascii ''w/c'') [],
        DirNode (ascii ''m'') (ascii ''w/m'')
          [DirNode (ascii ''k'') (ascii ''w/m/k'') [],
           FileNode (ascii ''q.txt'') (ascii ''w/m/q.txt'')
             (FileEntryHandle (FileEntry (ascii ''q.txt'')))],
        FileNode (ascii ''b.txt'') (ascii ''w/b.txt'')
          (FileEntryHandle (FileEntry (ascii ''b.txt''))),
        FileNode (ascii ''z.txt'') (ascii ''w/z.txt'')
          (FileEntryHandle (FileEntry (ascii ''z.txt'')))]"

lemma unsorted_archive_tree:
  "map_sum id root (fst (extractZipStructure code_unit_compare unsorted_archive))
     = Inr unsorted_archive_result"
  by (simp add: extractZipStructure_def unsorted_archive_def MAX_FILE_SIZE_MB_def entry_parts_def
        ascii_def slash_def addParts.simps(3) Let_def compareNodes_def strip_zip_def
        ends_with_zip_def unsorted_archive_result_def)

lemma unsorted_dir_tree:
  "readDirectoryStructure code_unit_compare unsorted_dir [] = Inr unsorted_dir_result"
  by (simp add: unsorted_dir_def readEntries_once_def Let_def compareNodes_def ascii_def
        slash_def unsorted_dir_result_def)

theorem children_canonically_ordered_witness:
  "consistent_comparator code_unit_compare
   \<and> (\<exists>s. fst (extractZipStructure code_unit_compare unsorted_archive) = Inr s
          \<and> root s = unsorted_archive_result
          \<and> canonically_ordered code_unit_compare (root s))
   \<and> readDirectoryStructure code_unit_compare unsorted_dir [] = Inr unsorted_dir_result
   \<and> canonically_ordered code_unit_compare unsorted_dir_result"
proof -
  obtain s where s: "fst (extractZipStructure code_unit_compare unsorted_archive) = Inr s"
    and rs: "root s = unsorted_archive_result"
    using unsorted_archive_tree
    by (cases "fst (extractZipStructure code_unit_compare unsorted_archive)") auto
  have "canonically_ordered code_unit_compare (root s)"
       "canonically_ordered code_unit_compare unsorted_dir_result"
    using children_canonically_ordered [OF consistent_code_unit_compare,
            of unsorted_archive s unsorted_dir "[]" unsorted_dir_result] s unsorted_dir_tree
    by blast+
  then show ?thesis using consistent_code_unit_compare s rs unsorted_dir_tree by blast
qed

section \<open>The order of the entries\<close>

text \<open>A tree without the handles of its file nodes: names, kinds, paths and child order.\<close>

datatype shape = DirShape jsstring jsstring "shape list" | FileShape jsstring jsstring

fun shape_of :: "node \<Rightarrow> shape" where
  "shape_of (DirNode n p cs) = DirShape n p (map shape_of cs)"
| "shape_of (FileNode n p h) = FileShape n p"

text \<open>
  The nodes of a tree by the list of names that leads to them from the root, with their
  kinds; \<open>below part\<close> puts a name in front of every list.
\<close>

definition below :: "jsstring \<Rightarrow> (jsstring list \<times> kind) set \<Rightarrow> (jsstring list \<times> kind) set" where
  "below part K = (\<lambda>(ps, k). (part # ps, k)) ` K"

definition child_keys :: "node \<Rightarrow> (jsstring list \<times> kind) set \<Rightarrow> (jsstring list \<times> kind) set" where
  "child_keys c K = insert ([name c], node_type c) (below (name c) K)"

fun node_keys :: "node \<Rightarrow> (jsstring list \<times> kind) set" where
  "node_keys (FileNode n p h) = {}"
| "node_keys (DirNode n p cs) = (\<Union>c \<in> set cs. child_keys c (node_keys c))"

text \<open>
  The nodes an entry implies: one for every non-empty prefix of its parts, a directory
  unless it is the full list of an entry not flagged as a directory.
\<close>

fun part_keys :: "bool \<Rightarrow> jsstring list \<Rightarrow> (jsstring list \<times> kind) set" where
  "part_keys d [] = {}"
| "part_keys d (part # rest) =
     insert ([part], if d \<or> rest \<noteq> [] then Directory else File) (below part (part_keys d rest))"

definition entry_keys :: "zip_entry \<Rightarrow> (jsstring list \<times> kind) set" where
  "entry_keys ze = part_keys (dir ze) (entry_parts ze)"

definition implied_keys :: "zip_entry list \<Rightarrow> (jsstring list \<times> kind) set" where
  "implied_keys es = (\<Union>ze \<in> set es. entry_keys ze)"

text \<open>No list of names is implied both as a file and as a directory.\<close>

definition single_kinded :: "(jsstring list \<times> kind) set \<Rightarrow> bool" where
  "single_kinded K \<longleftrightarrow> (\<forall>(ps, k) \<in> K. \<forall>(ps', k') \<in> K. ps = ps' \<longrightarrow> k = k')"

definition no_kind_conflict :: "zip_entry list \<Rightarrow> bool" where
  "no_kind_conflict es \<longleftrightarrow> single_kinded (implied_keys es)"

lemma single_kindedD: "single_kinded K \<Longrightarrow> (ps, k) \<in> K \<Longrightarrow> (ps, k') \<in> K \<Longrightarrow> k = k'"
  unfolding single_kinded_def by blast

lemma single_kinded_subset: "single_kinded K \<Longrightarrow> K' \<subseteq> K \<Longrightarrow> single_kinded K'"
  unfolding single_kinded_def by blast

lemma single_kinded_below: "single_kinded K \<Longrightarrow> below part K' \<subseteq> K \<Longrightarrow> single_kinded K'"
  unfolding single_kinded_def below_def by (auto, blast)

lemma below_Un: "below part (A \<union> B) = below part A \<union> below part B"
  by (auto simp: below_def)

lemma child_in_node_keys:
  "c \<in> set cs \<Longrightarrow> child_keys c (node_keys c) \<subseteq> node_keys (DirNode n p cs)"
  by auto

lemma set_replaceChild_distinct:
  "distinct (map name cs) \<Longrightarrow> existing \<in> set cs \<Longrightarrow> name existing = part \<Longrightarrow> name nd = part
     \<Longrightarrow> set (replaceChild part nd cs) = insert nd (set cs - {existing})"
  by (induction cs) (auto simp: rev_image_eqI)

lemma addParts_keys:
  "distinct_names cur \<Longrightarrow> node_type cur = Directory
     \<Longrightarrow> single_kinded (node_keys cur \<union> part_keys (dir ze) ps)
     \<Longrightarrow> \<exists>cur' fm'. addParts ze ps cur fm = Inr (cur', fm')
           \<and> node_keys cur' = node_keys cur \<union> part_keys (dir ze) ps"
proof (induction ps arbitrary: cur fm)
  case Nil
  show ?case by simp
next
  case (Cons part rest)
  obtain n p cs where cur: "cur = DirNode n p cs"
    using Cons.prems(2) by (cases cur) auto
  let ?K = "node_keys cur \<union> part_keys (dir ze) (part # rest)"
  let ?isDirectory = "dir ze \<or> rest \<noteq> []"
  have d: "distinct (map name cs)" "\<forall>c \<in> set cs. distinct_names c"
    using Cons.prems(1) cur by simp_all
  have sub: "below part (part_keys (dir ze) rest) \<subseteq> ?K" by auto
  show ?case
  proof (cases "find (\<lambda>child. name child = part) cs")
    case None
    show ?thesis
    proof (cases ?isDirectory)
      case True
      let ?fresh = "DirNode part (p @ slash @ part) []"
      have "single_kinded (node_keys ?fresh \<union> part_keys (dir ze) rest)"
        using single_kinded_below [OF Cons.prems(3) sub] by simp
      from Cons.IH [OF _ _ this, of fm] obtain newDir fm' where
        nd: "addParts ze rest ?fresh fm = Inr (newDir, fm')"
        and k: "node_keys newDir = part_keys (dir ze) rest" by auto
      have keep: "name newDir = part" "node_type newDir = Directory"
        using addParts_keeps [OF nd] by simp_all
      have "addParts ze (part # rest) cur fm = Inr (DirNode n p (cs @ [newDir]), fm')"
        using None True nd cur by (simp add: addParts.simps(3))
      moreover have "node_keys (DirNode n p (cs @ [newDir]))
                       = node_keys cur \<union> part_keys (dir ze) (part # rest)"
        using True k keep cur by (auto simp: child_keys_def)
      ultimately show ?thesis by blast
    next
      case False
      let ?file = "FileNode part (p @ slash @ part) (ZipEntryHandle ze)"
      have "addParts ze (part # rest) cur fm
              = Inr (DirNode n p (cs @ [?file]), fm(p @ slash @ part \<mapsto> ze))"
        using None False cur by (simp add: addParts.simps(3))
      moreover have "node_keys (DirNode n p (cs @ [?file]))
                       = node_keys cur \<union> part_keys (dir ze) (part # rest)"
        using False cur by (auto simp: child_keys_def below_def)
      ultimately show ?thesis by blast
    qed
  next
    case (Some existing)
    have ex: "existing \<in> set cs" "name existing = part"
      using find_Some_in [OF Some] by simp_all
    have exk: "([part], node_type existing) \<in> ?K"
      using ex cur by (auto simp: child_keys_def)
    have exsub: "below part (node_keys existing) \<subseteq> ?K"
      using ex cur by (auto simp: child_keys_def)
    show ?thesis
    proof (cases ?isDirectory)
      case True
      then have "([part], Directory) \<in> ?K" by simp
      then have ty: "node_type existing = Directory"
        using single_kindedD [OF Cons.prems(3) exk] by simp
      have "below part (node_keys existing \<union> part_keys (dir ze) rest) \<subseteq> ?K"
        using sub exsub by (simp add: below_Un)
      then have "single_kinded (node_keys existing \<union> part_keys (dir ze) rest)"
        by (rule single_kinded_below [OF Cons.prems(3)])
      from Cons.IH [OF _ ty this, of fm] d ex obtain existing' fm' where
        nd: "addParts ze rest existing fm = Inr (existing', fm')"
        and k: "node_keys existing' = node_keys existing \<union> part_keys (dir ze) rest" by auto
      have keep: "name existing' = part" "node_type existing' = Directory"
        using addParts_keeps [OF nd] ex ty by simp_all
      have "addParts ze (part # rest) cur fm
              = Inr (DirNode n p (replaceChild part existing' cs), fm')"
        using Some True nd cur by (simp add: addParts.simps(3))
      moreover have "child_keys existing' (node_keys existing')
              = child_keys existing (node_keys existing) \<union> below part (part_keys (dir ze) rest)"
        using k keep ex ty by (auto simp: child_keys_def below_Un)
      then have "node_keys (DirNode n p (replaceChild part existing' cs))
                       = node_keys cur \<union> part_keys (dir ze) (part # rest)"
        using set_replaceChild_distinct [OF d(1) ex keep(1)] True cur ex ty
        by (auto simp: child_keys_def)
      ultimately show ?thesis by blast
    next
      case False
      then have "([part], File) \<in> ?K" by simp
      then have ty: "node_type existing = File"
        using single_kindedD [OF Cons.prems(3) exk] by simp
      have "addParts ze (part # rest) cur fm = Inr (cur, fm)"
        using Some False cur by (simp add: addParts.simps(3))
      moreover have "node_keys cur = node_keys cur \<union> part_keys (dir ze) (part # rest)"
        using False cur ex ty by (auto simp: child_keys_def below_def)
      ultimately show ?thesis by blast
    qed
  qed
qed


lemma addEntries_keys:
  "distinct_names r \<Longrightarrow> node_type r = Directory
     \<Longrightarrow> single_kinded (node_keys r \<union> implied_keys es)
     \<Longrightarrow> \<exists>r' fm'. addEntries es r fm = Inr (r', fm')
           \<and> node_keys r' = node_keys r \<union> implied_keys es"
proof (induction es arbitrary: r fm)
  case Nil
  show ?case by (simp add: implied_keys_def)
next
  case (Cons ze es)
  have split: "implied_keys (ze # es) = entry_keys ze \<union> implied_keys es"
    by (simp add: implied_keys_def)
  have "single_kinded (node_keys r \<union> part_keys (dir ze) (entry_parts ze))"
    using Cons.prems(3) by (rule single_kinded_subset) (auto simp: split entry_keys_def)
  from addParts_keys [OF Cons.prems(1,2) this, of fm] obtain r1 fm1 where
    a: "addParts ze (entry_parts ze) r fm = Inr (r1, fm1)"
    and k: "node_keys r1 = node_keys r \<union> entry_keys ze"
    by (auto simp: entry_keys_def)
  have "distinct_names r1" using addParts_distinct_names [OF Cons.prems(1) a] .
  moreover have "node_type r1 = Directory" using addParts_keeps [OF a] Cons.prems(2) by simp
  moreover have "single_kinded (node_keys r1 \<union> implied_keys es)"
    using Cons.prems(3) by (rule single_kinded_subset) (auto simp: split k)
  ultimately obtain r' fm' where
    "addEntries es r1 fm1 = Inr (r', fm')"
    "node_keys r' = node_keys r1 \<union> implied_keys es"
    using Cons.IH [of r1 fm1] by blast
  then show ?case using a k by (auto simp: split)
qed

lemma sortStructure_node_keys: "node_keys (sortStructure lc t) = node_keys t"
proof (induction lc t rule: sortStructure.induct)
  case (1 lc n p h)
  show ?case by simp
next
  case (2 lc n p cs)
  then have "\<And>c. c \<in> set cs \<Longrightarrow>
      child_keys (sortStructure lc c) (node_keys (sortStructure lc c)) = child_keys c (node_keys c)"
    by (simp add: child_keys_def sortStructure_keeps set_array_sort)
  then show ?case by (simp add: set_array_sort)
qed

lemma sorted_wrt_unique:
  assumes asym: "\<And>a b. R a b \<Longrightarrow> \<not> R b a"
  shows "sorted_wrt R xs \<Longrightarrow> sorted_wrt R ys \<Longrightarrow> set xs = set ys \<Longrightarrow> xs = ys"
proof (induction xs arbitrary: ys)
  case Nil
  then show ?case by simp
next
  case (Cons x xs)
  then obtain y ys' where ys: "ys = y # ys'" by (cases ys) auto
  have irr: "\<And>a. \<not> R a a" using asym by blast
  have xy: "x = y"
  proof (rule ccontr)
    assume ne: "x \<noteq> y"
    then have "x \<in> set ys'" "y \<in> set xs" using Cons.prems(3) ys by auto
    then have "R y x" "R x y" using Cons.prems(1,2) ys by auto
    then show False using asym by blast
  qed
  have "x \<notin> set xs" "y \<notin> set ys'" using Cons.prems(1,2) ys irr by auto
  then have "set xs = set ys'" using Cons.prems(3) ys xy by auto
  then have "xs = ys'" using Cons.IH [of ys'] Cons.prems(1,2) ys by simp
  with xy ys show ?case by simp
qed


text \<open>
  With distinct names and no ties among them, the order of the children is strict: a
  directory before a file, or the same kind and a negative \<open>localeCompare\<close>.
\<close>

definition node_key :: "node \<Rightarrow> jsstring \<times> kind" where
  "node_key c = (name c, node_type c)"

definition strictly_before ::
  "(jsstring \<Rightarrow> jsstring \<Rightarrow> int) \<Rightarrow> jsstring \<times> kind \<Rightarrow> jsstring \<times> kind \<Rightarrow> bool" where
  "strictly_before lc x y \<longleftrightarrow>
     (snd x = Directory \<and> snd y = File) \<or> (snd x = snd y \<and> lc (fst x) (fst y) < 0)"

definition key_names :: "(jsstring list \<times> kind) set \<Rightarrow> jsstring set" where
  "key_names K = (\<Union>(ps, k) \<in> K. set ps)"

definition tie_free_on :: "jsstring set \<Rightarrow> (jsstring \<Rightarrow> jsstring \<Rightarrow> int) \<Rightarrow> bool" where
  "tie_free_on N lc \<longleftrightarrow> (\<forall>a \<in> N. \<forall>b \<in> N. lc a b = 0 \<longrightarrow> a = b)"

lemma strictly_before_asym:
  assumes "consistent_comparator lc" "strictly_before lc x y"
  shows "\<not> strictly_before lc y x"
proof
  assume "strictly_before lc y x"
  with assms(2) have "lc (fst x) (fst y) < 0" "lc (fst y) (fst x) < 0"
    by (auto simp: strictly_before_def)
  then show False using consistent_sym [OF assms(1), of "fst x" "fst y"] by simp
qed

lemma strictly_sorted_children:
  "sorted_wrt (in_order lc) cs \<Longrightarrow> distinct (map name cs) \<Longrightarrow> name ` set cs \<subseteq> N
     \<Longrightarrow> tie_free_on N lc \<Longrightarrow> sorted_wrt (strictly_before lc) (map node_key cs)"
proof (induction cs)
  case Nil
  show ?case by simp
next
  case (Cons x cs)
  have "strictly_before lc (node_key x) (node_key y)" if y: "y \<in> set cs" for y
  proof -
    have io: "in_order lc x y" and ne: "name x \<noteq> name y" using Cons.prems(1,2) y by auto
    have "lc (name x) (name y) \<noteq> 0"
      using Cons.prems(3,4) y ne unfolding tie_free_on_def by auto
    then show ?thesis using io
      by (cases "node_type x"; cases "node_type y")
         (auto simp: in_order_def strictly_before_def node_key_def)
  qed
  then show ?case using Cons by auto
qed

lemma no_empty_key: "([], k) \<notin> node_keys t"
  by (cases t) (auto simp: child_keys_def below_def)

lemma top_keys:
  "([nm], k) \<in> node_keys (DirNode n p cs) \<longleftrightarrow> (nm, k) \<in> node_key ` set cs"
  by (auto simp: child_keys_def below_def node_key_def no_empty_key)

lemma keys_of_child:
  assumes "distinct (map name cs)" "c \<in> set cs"
  shows "node_keys c = {(ps, k). ps \<noteq> [] \<and> (name c # ps, k) \<in> node_keys (DirNode n p cs)}"
proof -
  have inj: "\<And>c'. c' \<in> set cs \<Longrightarrow> name c' = name c \<Longrightarrow> c' = c"
    using assms by (meson distinct_map inj_onD)
  show ?thesis
  proof (intro equalityI subsetI)
    fix x assume x: "x \<in> node_keys c"
    obtain ps k where pk: "x = (ps, k)" by (cases x)
    have "ps \<noteq> []" using x pk no_empty_key by auto
    moreover have "(name c # ps, k) \<in> node_keys (DirNode n p cs)"
      using x pk assms(2) by (auto simp: child_keys_def below_def)
    ultimately show "x \<in> {(ps, k). ps \<noteq> [] \<and> (name c # ps, k) \<in> node_keys (DirNode n p cs)}"
      using pk by simp
  next
    fix x assume "x \<in> {(ps, k). ps \<noteq> [] \<and> (name c # ps, k) \<in> node_keys (DirNode n p cs)}"
    then obtain ps k where pk: "x = (ps, k)" "ps \<noteq> []"
      "(name c # ps, k) \<in> node_keys (DirNode n p cs)" by auto
    then obtain c' where c': "c' \<in> set cs" "(name c # ps, k) \<in> child_keys c' (node_keys c')"
      by auto
    then have "name c' = name c" "(ps, k) \<in> node_keys c'"
      using pk(2) by (auto simp: child_keys_def below_def)
    then show "x \<in> node_keys c" using inj c'(1) pk(1) by auto
  qed
qed

lemma key_names_child:
  "c \<in> set cs \<Longrightarrow> key_names (node_keys c) \<subseteq> key_names (node_keys (DirNode n p cs))"
  by (fastforce simp: key_names_def child_keys_def below_def)

lemma child_name_in_key_names:
  "c \<in> set cs \<Longrightarrow> name c \<in> key_names (node_keys (DirNode n p cs))"
  by (fastforce simp: key_names_def child_keys_def)

lemma list_all2_map_eq: "list_all2 (\<lambda>x y. f x = g y) xs ys \<Longrightarrow> map f xs = map g ys"
  by (induction rule: list_all2_induct) auto

lemma map_eq_list_all2: "map f xs = map g ys \<Longrightarrow> list_all2 (\<lambda>x y. f x = g y) xs ys"
  by (induction xs arbitrary: ys) auto

lemma same_keys_same_shape:
  assumes c: "consistent_comparator lc" and tf: "tie_free_on N lc"
  shows "key_names (node_keys t1) \<subseteq> N \<Longrightarrow> node_keys t1 = node_keys t2
     \<Longrightarrow> name t1 = name t2 \<Longrightarrow> path t1 = path t2 \<Longrightarrow> node_type t1 = node_type t2
     \<Longrightarrow> distinct_names t1 \<Longrightarrow> distinct_names t2
     \<Longrightarrow> joined_paths t1 \<Longrightarrow> joined_paths t2
     \<Longrightarrow> canonically_ordered lc t1 \<Longrightarrow> canonically_ordered lc t2
     \<Longrightarrow> shape_of t1 = shape_of t2"
proof (induction t1 arbitrary: t2)
  case (FileNode n p h)
  then show ?case by (cases t2) auto
next
  case (DirNode n p cs1)
  obtain cs2 where t2: "t2 = DirNode n p cs2"
    using DirNode.prems(3,4,5) by (cases t2) auto
  note pr = DirNode.prems [unfolded t2]
  have keyset: "node_key ` set cs1 = node_key ` set cs2"
  proof (intro set_eqI)
    fix x :: "jsstring \<times> kind"
    obtain nm k where x: "x = (nm, k)" by (cases x)
    show "x \<in> node_key ` set cs1 \<longleftrightarrow> x \<in> node_key ` set cs2"
      by (simp only: x top_keys [of nm k n p cs1, symmetric]
                     top_keys [of nm k n p cs2, symmetric] pr(2))
  qed
  have n1: "name ` set cs1 \<subseteq> N" using pr(1) child_name_in_key_names [of _ cs1 n p] by auto
  have n2: "name ` set cs2 \<subseteq> N"
    using pr(1) child_name_in_key_names [of _ cs2 n p] unfolding pr(2) by auto
  have "sorted_wrt (strictly_before lc) (map node_key cs1)"
    using pr(6,10) n1 tf by (auto intro: strictly_sorted_children)
  moreover have "sorted_wrt (strictly_before lc) (map node_key cs2)"
    using pr(7,11) n2 tf by (auto intro: strictly_sorted_children)
  ultimately have "map node_key cs1 = map node_key cs2"
    using keyset by (auto intro: sorted_wrt_unique [OF strictly_before_asym [OF c]])
  then have "list_all2 (\<lambda>a b. node_key a = node_key b) cs1 cs2" by (rule map_eq_list_all2)
  then have "list_all2 (\<lambda>a b. shape_of a = shape_of b) cs1 cs2"
  proof (rule list.rel_mono_strong)
    fix a b assume a: "a \<in> set cs1" and b: "b \<in> set cs2" and k: "node_key a = node_key b"
    have nt: "name a = name b" "node_type a = node_type b" using k by (simp_all add: node_key_def)
    have "key_names (node_keys a) \<subseteq> N" using key_names_child [OF a, of n p] pr(1) by blast
    moreover have "node_keys a = node_keys b"
    proof -
      have "node_keys a
              = {(ps, k). ps \<noteq> [] \<and> (name a # ps, k) \<in> node_keys (DirNode n p cs1)}"
        using pr(6) a by (intro keys_of_child) simp_all
      also have "\<dots> = {(ps, k). ps \<noteq> [] \<and> (name b # ps, k) \<in> node_keys (DirNode n p cs2)}"
        by (simp only: pr(2) nt(1))
      also have "\<dots> = node_keys b"
        using pr(7) b by (intro keys_of_child [symmetric]) simp_all
      finally show ?thesis .
    qed
    moreover have "path a = path b" using pr(8,9) a b nt(1) by simp
    ultimately show "shape_of a = shape_of b"
      using DirNode.IH [OF a, of b] nt pr(6-11) a b by simp
  qed
  then have "map shape_of cs1 = map shape_of cs2" by (rule list_all2_map_eq)
  then show ?case using t2 by simp
qed


text \<open>The names that occur as parts of the entries.\<close>

definition entry_names :: "zip_entry list \<Rightarrow> jsstring set" where
  "entry_names es = (\<Union>ze \<in> set es. set (entry_parts ze))"

lemma key_names_part_keys: "key_names (part_keys d ps) \<subseteq> set ps"
proof (induction ps)
  case Nil
  show ?case by (simp add: key_names_def)
next
  case (Cons part rest)
  have "set qs \<subseteq> set rest" if "(qs, k) \<in> part_keys d rest" for qs k
    using Cons that unfolding key_names_def by blast
  then show ?case by (fastforce simp: key_names_def below_def)
qed

lemma key_names_implied_keys: "key_names (implied_keys es) \<subseteq> entry_names es"
proof -
  have "key_names (entry_keys ze) \<subseteq> set (entry_parts ze)" for ze
    unfolding entry_keys_def by (rule key_names_part_keys)
  then show ?thesis
    unfolding implied_keys_def entry_names_def key_names_def by blast
qed

lemma built_tree:
  assumes "no_kind_conflict es" "file_size file \<le> 50 * 1024 * 1024"
  shows "\<exists>s r. fst (extractZipStructure lc (file\<lparr>loadAsync_result := Inr es\<rparr>)) = Inr s
           \<and> root s = sortStructure lc r \<and> node_keys r = implied_keys es
           \<and> distinct_names r \<and> joined_paths r
           \<and> name r = strip_zip (file_name file) \<and> path r = [] \<and> node_type r = Directory"
proof -
  let ?r0 = "DirNode (strip_zip (file_name file)) [] []"
  have "single_kinded (node_keys ?r0 \<union> implied_keys es)"
    using assms(1) by (simp add: no_kind_conflict_def)
  from addEntries_keys [OF _ _ this, of Map.empty] obtain r fm where
    r: "addEntries es ?r0 Map.empty = Inr (r, fm)" and k: "node_keys r = implied_keys es"
    by auto
  have "distinct_names r"
    by (rule addEntries_invariant [where P = distinct_names, OF _ _ r])
       (auto intro: addParts_distinct_names)
  moreover have "joined_paths r"
    by (rule addEntries_invariant [where P = joined_paths, OF _ _ r])
       (auto intro: addParts_joined_paths)
  moreover have "name r = strip_zip (file_name file) \<and> path r = [] \<and> node_type r = Directory"
    by (rule addEntries_invariant
          [where P = "\<lambda>nd. name nd = strip_zip (file_name file) \<and> path nd = []
                          \<and> node_type nd = Directory", OF _ _ r])
       (auto dest: addParts_keeps)
  moreover have "fst (extractZipStructure lc (file\<lparr>loadAsync_result := Inr es\<rparr>))
                   = Inr \<lparr>root = sortStructure lc r, fileMap = fm\<rparr>"
    using assms(2) r by (simp add: extractZipStructure_def MAX_FILE_SIZE_MB_def)
  ultimately show ?thesis using k by auto
qed

text \<open>
  Claim C10, amended. With a consistent \<open>localeCompare\<close> that returns 0 for no two
  different names among the parts of the entries, for entries of which no list of names is
  implied both as a file and as a directory, and a file within the size limit:
  \<open>extractZipStructure\<close> returns a tree for the entries in any order, and the trees of
  two orders agree in names, kinds, paths and child order at every directory.
\<close>

theorem permuted_entries_same_shape:
  assumes "consistent_comparator lc" "tie_free_on (entry_names es) lc"
    and "no_kind_conflict es" "mset es' = mset es"
    and "file_size file \<le> 50 * 1024 * 1024"
  shows "\<exists>s s'. fst (extractZipStructure lc (file\<lparr>loadAsync_result := Inr es\<rparr>)) = Inr s
           \<and> fst (extractZipStructure lc (file\<lparr>loadAsync_result := Inr es'\<rparr>)) = Inr s'
           \<and> shape_of (root s) = shape_of (root s')"
proof -
  have same: "set es' = set es" using assms(4) by (rule mset_eq_setD)
  then have ik: "implied_keys es' = implied_keys es" by (simp add: implied_keys_def)
  then have nc: "no_kind_conflict es'" using assms(3) by (simp add: no_kind_conflict_def)
  obtain s r where s: "fst (extractZipStructure lc (file\<lparr>loadAsync_result := Inr es\<rparr>)) = Inr s"
    and r: "root s = sortStructure lc r" "node_keys r = implied_keys es"
      "distinct_names r" "joined_paths r"
      "name r = strip_zip (file_name file)" "path r = []" "node_type r = Directory"
    using built_tree [OF assms(3,5), of lc] by blast
  obtain s' r' where s': "fst (extractZipStructure lc (file\<lparr>loadAsync_result := Inr es'\<rparr>)) = Inr s'"
    and r': "root s' = sortStructure lc r'" "node_keys r' = implied_keys es'"
      "distinct_names r'" "joined_paths r'"
      "name r' = strip_zip (file_name file)" "path r' = []" "node_type r' = Directory"
    using built_tree [OF nc assms(5), of lc] by blast
  have "key_names (node_keys (sortStructure lc r)) \<subseteq> entry_names es"
    using key_names_implied_keys [of es] by (simp add: sortStructure_node_keys r(2))
  then have "shape_of (sortStructure lc r) = shape_of (sortStructure lc r')"
    using r r' ik
    by (intro same_keys_same_shape [OF assms(1,2)])
       (simp_all add: sortStructure_node_keys sortStructure_keeps sortStructure_distinct_names
          sortStructure_joined_paths sortStructure_canonically_ordered [OF assms(1)])
  then show ?thesis using s s' r(1) r'(1) by auto
qed


text \<open>
  ECMAScript requires \<open>localeCompare\<close> to return 0 for distinguishable strings that are
  canonically equivalent. \<open>canonical_compare\<close> does so for the two spellings of e with
  acute accent (U+00E9, and U+0065 followed by U+0301) and compares by code units otherwise.
\<close>

fun decompose :: "jsstring \<Rightarrow> jsstring" where
  "decompose [] = []"
| "decompose (c # cs) = (if c = 0xE9 then [0x65, 0x301] else [c]) @ decompose cs"

definition canonical_compare :: "jsstring \<Rightarrow> jsstring \<Rightarrow> int" where
  "canonical_compare a b = code_unit_compare (decompose a) (decompose b)"

lemma consistent_canonical_compare: "consistent_comparator canonical_compare"
  unfolding consistent_comparator_def canonical_compare_def
  using code_unit_compare_refl code_unit_compare_sym code_unit_compare_trans by blast

lemma tie_free_code_unit_compare: "tie_free_on N code_unit_compare"
  unfolding tie_free_on_def using code_unit_compare_eq by blast

text \<open>An archive below the size limit with the given entries.\<close>

definition archive_of :: "zip_entry list \<Rightarrow> zip_file" where
  "archive_of es = \<lparr>file_name = ascii ''t.zip'', file_size = 4096, loadAsync_result = Inr es\<rparr>"

definition composed_entry :: zip_entry where
  "composed_entry = \<lparr>relativePath = [0xE9], dir = False\<rparr>"

definition decomposed_entry :: zip_entry where
  "decomposed_entry = \<lparr>relativePath = [0x65, 0x301], dir = False\<rparr>"

text \<open>The shape of the tree \<open>extractZipStructure\<close> returns, or its error.\<close>

definition shape_result :: "(error + zip_structure) \<times> nat \<Rightarrow> error + shape" where
  "shape_result res = (case fst res of Inl e \<Rightarrow> Inl e | Inr s \<Rightarrow> Inr (shape_of (root s)))"

text \<open>
  Claim C10, as stated, fails: two file entries whose names are canonically equivalent and
  distinct compare as equal, the stable sort keeps them in the order of insertion, and the
  two orders of the entries give trees with the two children exchanged.
\<close>

theorem entry_order_counterexample:
  "consistent_comparator canonical_compare
   \<and> no_kind_conflict [composed_entry, decomposed_entry]
   \<and> mset [decomposed_entry, composed_entry] = mset [composed_entry, decomposed_entry]
   \<and> shape_result (extractZipStructure canonical_compare
                      (archive_of [composed_entry, decomposed_entry]))
       = Inr (DirShape (ascii ''t'') []
                [FileShape [0xE9] [0x2F, 0xE9], FileShape [0x65, 0x301] [0x2F, 0x65, 0x301]])
   \<and> shape_result (extractZipStructure canonical_compare
                      (archive_of [decomposed_entry, composed_entry]))
       = Inr (DirShape (ascii ''t'') []
                [FileShape [0x65, 0x301] [0x2F, 0x65, 0x301], FileShape [0xE9] [0x2F, 0xE9]])"
proof -
  have "no_kind_conflict [composed_entry, decomposed_entry]"
    by (simp add: no_kind_conflict_def single_kinded_def implied_keys_def entry_keys_def
          entry_parts_def composed_entry_def decomposed_entry_def below_def)
  moreover have "shape_result (extractZipStructure canonical_compare
                      (archive_of [composed_entry, decomposed_entry]))
       = Inr (DirShape (ascii ''t'') []
                [FileShape [0xE9] [0x2F, 0xE9], FileShape [0x65, 0x301] [0x2F, 0x65, 0x301]])"
    by (simp add: shape_result_def extractZipStructure_def archive_of_def MAX_FILE_SIZE_MB_def
          entry_parts_def composed_entry_def decomposed_entry_def ascii_def slash_def
          addParts.simps(3) Let_def compareNodes_def canonical_compare_def strip_zip_def
          ends_with_zip_def)
  moreover have "shape_result (extractZipStructure canonical_compare
                      (archive_of [decomposed_entry, composed_entry]))
       = Inr (DirShape (ascii ''t'') []
                [FileShape [0x65, 0x301] [0x2F, 0x65, 0x301], FileShape [0xE9] [0x2F, 0xE9]])"
    by (simp add: shape_result_def extractZipStructure_def archive_of_def MAX_FILE_SIZE_MB_def
          entry_parts_def composed_entry_def decomposed_entry_def ascii_def slash_def
          addParts.simps(3) Let_def compareNodes_def canonical_compare_def strip_zip_def
          ends_with_zip_def)
  ultimately show ?thesis using consistent_canonical_compare by simp
qed

definition three_entries :: "zip_entry list" where
  "three_entries =
     [\<lparr>relativePath = ascii ''z.txt'', dir = False\<rparr>,
      \<lparr>relativePath = ascii ''m/q.txt'', dir = False\<rparr>,
      \<lparr>relativePath = ascii ''c/'', dir = True\<rparr>]"

definition three_entries_permuted :: "zip_entry list" where
  "three_entries_permuted =
     [\<lparr>relativePath = ascii ''c/'', dir = True\<rparr>,
      \<lparr>relativePath = ascii ''z.txt'', dir = False\<rparr>,
      \<lparr>relativePath = ascii ''m/q.txt'', dir = False\<rparr>]"

lemma three_entries_no_conflict: "no_kind_conflict three_entries"
  by (simp add: no_kind_conflict_def single_kinded_def implied_keys_def entry_keys_def
        entry_parts_def three_entries_def below_def ascii_def)

lemma three_entries_mset: "mset three_entries_permuted = mset three_entries"
  by (simp add: three_entries_def three_entries_permuted_def)

theorem permuted_entries_same_shape_witness:
  "consistent_comparator code_unit_compare
   \<and> tie_free_on (entry_names three_entries) code_unit_compare
   \<and> no_kind_conflict three_entries
   \<and> mset three_entries_permuted = mset three_entries
   \<and> file_size (archive_of []) \<le> 50 * 1024 * 1024
   \<and> (\<exists>s s'. fst (extractZipStructure code_unit_compare
                     (archive_of [] \<lparr>loadAsync_result := Inr three_entries\<rparr>)) = Inr s
           \<and> fst (extractZipStructure code_unit_compare
                     (archive_of [] \<lparr>loadAsync_result := Inr three_entries_permuted\<rparr>)) = Inr s'
           \<and> shape_of (root s) = shape_of (root s'))"
proof -
  have sz: "file_size (archive_of []) \<le> 50 * 1024 * 1024" by (simp add: archive_of_def)
  show ?thesis
    using permuted_entries_same_shape [OF consistent_code_unit_compare
            tie_free_code_unit_compare three_entries_no_conflict three_entries_mset sz]
          consistent_code_unit_compare tie_free_code_unit_compare three_entries_no_conflict
          three_entries_mset sz
    by blast
qed

end
